theory Spec2Isabelle
  imports Main "HOL-Library.Word"
begin

section \<open>The control-channel engine of the FTP proxy (pftp/proxy.go)\<close>

text \<open>
  The theory embeds \<^verbatim>\<open>pftp/proxy.go\<close>: the session record \<^verbatim>\<open>proxyServer\<close>, the
  suspend gate, \<^verbatim>\<open>sendProxyHeader\<close>, \<^verbatim>\<open>sendTLSCommand\<close>, \<^verbatim>\<open>switchOrigin\<close>, the pump
  \<^verbatim>\<open>start\<close> and \<^verbatim>\<open>commandLog\<close>. (\<^verbatim>\<open>newProxyServer\<close>, \<^verbatim>\<open>sendToOrigin\<close> and
  \<^verbatim>\<open>Close\<close> are not embedded; of \<^verbatim>\<open>sendToOrigin\<close> the pump sees line 93, which
  acquires the gate.)

  Go strings are byte strings (\<open>string\<close>). Every call that leaves the process (dial,
  DNS lookup, reads and writes on a connection) takes its result from an environment;
  the calls on connections and on the stop channel are recorded, in order, in a list of
  events. A Go \<^verbatim>\<open>error\<close> value is an \<open>error option\<close>, \<open>None\<close> being \<^verbatim>\<open>nil\<close>. A
  run-time panic is an outcome of its own. The logger is not part of the file; of the
  logging calls only \<^verbatim>\<open>commandLog\<close> is modelled, as the message it hands to
  \<^verbatim>\<open>s.log.debug\<close>.

  The two goroutines of the pump are run under a schedule: a list that says, step by
  step, which of them moves (or which other goroutine of the session touches the flags),
  and with which result of its read or write. A property of the pump is stated for every
  schedule.
\<close>

subsection \<open>Strings: the functions of package strings and strconv that the file calls\<close>

definition CR :: char where
  "CR = CHR 0x0D"

definition LF :: char where
  "LF = CHR 0x0A"

definition SP :: char where
  "SP = CHR 0x20"

text \<open>The cutset \<^verbatim>\<open>"\r\n"\<close>.\<close>

definition crlf :: string where
  "crlf = [CR, LF]"

text \<open>
  \<^verbatim>\<open>strings.ToUpper\<close>. On a string of ASCII bytes (every byte below
  \<^verbatim>\<open>utf8.RuneSelf\<close>, 0x80) it maps the letters \<^verbatim>\<open>a\<close> to \<^verbatim>\<open>z\<close> to \<^verbatim>\<open>A\<close> to \<^verbatim>\<open>Z\<close>
  and keeps every other byte. On any other string it returns
  \<^verbatim>\<open>strings.Map(unicode.ToUpper, s)\<close>, which decodes the string as UTF-8, maps each rune
  by the case tables of package \<^verbatim>\<open>unicode\<close> (U+017F, the long s, goes to \<^verbatim>\<open>S\<close>) and
  encodes the result, a byte that is not valid UTF-8 becoming U+FFFD. These tables belong
  to the Go release, not to the repository: \<open>mapUpper\<close> stands for
  \<^verbatim>\<open>strings.Map(unicode.ToUpper, s)\<close> and is a parameter of everything that upper-cases.
\<close>

definition toUpperByte :: "char \<Rightarrow> char" where
  "toUpperByte c =
     (let n = (of_char c :: nat) in if 97 \<le> n \<and> n \<le> 122 then char_of (n - 32) else c)"

definition isASCII :: "string \<Rightarrow> bool" where
  "isASCII s = list_all (\<lambda>c. (of_char c :: nat) < 128) s"

definition ToUpper :: "(string \<Rightarrow> string) \<Rightarrow> string \<Rightarrow> string" where
  "ToUpper mapUpper s = (if isASCII s then map toUpperByte s else mapUpper s)"

text \<open>\<^verbatim>\<open>strings.Trim(s, cutset)\<close>: the leading and trailing bytes of the cutset removed.\<close>

definition Trim :: "string \<Rightarrow> string \<Rightarrow> string" where
  "Trim s cutset =
     rev (dropWhile (\<lambda>c. c \<in> set cutset) (rev (dropWhile (\<lambda>c. c \<in> set cutset) s)))"

text \<open>
  \<^verbatim>\<open>strings.SplitN(s, sep, n)\<close> for a separator of one byte and \<open>n \<ge> 0\<close>: at most
  \<open>n\<close> substrings, the last one the unsplit remainder.
\<close>

fun SplitN :: "string \<Rightarrow> char \<Rightarrow> nat \<Rightarrow> string list" where
  "SplitN s sep 0 = []"
| "SplitN s sep (Suc 0) = [s]"
| "SplitN s sep (Suc (Suc n)) =
     (if sep \<in> set s
      then takeWhile (\<lambda>c. c \<noteq> sep) s # SplitN (tl (dropWhile (\<lambda>c. c \<noteq> sep) s)) sep (Suc n)
      else [s])"

text \<open>\<^verbatim>\<open>strings.Split(s, sep)\<close> for a separator of one byte: never empty.\<close>

fun Split :: "string \<Rightarrow> char \<Rightarrow> string list" where
  "Split [] sep = [[]]"
| "Split (c # cs) sep =
     (if c = sep then [] # Split cs sep
      else (case Split cs sep of [] \<Rightarrow> [[c]] | x # xs \<Rightarrow> (c # x) # xs))"

text \<open>
  \<^verbatim>\<open>strconv.Atoi\<close> with its error dropped (\<^verbatim>\<open>port, _ := strconv.Atoi(..)\<close>), for a
  64-bit \<^verbatim>\<open>int\<close>. \<^verbatim>\<open>Atoi\<close> is \<^verbatim>\<open>ParseInt(s, 10, 0)\<close> (its fast path for fewer than
  19 bytes gives the same values), which takes the sign off and scans the rest with
  \<^verbatim>\<open>ParseUint\<close>.

  \<open>ParseUint\<close> is the loop of \<^verbatim>\<open>ParseUint\<close> in base 10 over the bytes still to scan, \<open>n\<close>
  the value so far: \<open>None\<close> is the syntax error (a byte that is no digit), and \<open>Some\<close> the
  value, which is \<^verbatim>\<open>maxUint64\<close> as soon as the next digit would overflow 64 bits. The
  loop returns at that digit: the bytes after it are not looked at.
\<close>

definition isDigit :: "char \<Rightarrow> bool" where
  "isDigit c = (48 \<le> (of_char c :: nat) \<and> (of_char c :: nat) \<le> 57)"

definition maxUint64 :: int where
  "maxUint64 = 18446744073709551615"

fun ParseUint :: "int \<Rightarrow> string \<Rightarrow> int option" where
  "ParseUint n [] = Some n"
| "ParseUint n (c # cs) =
     (if \<not> isDigit c then None
      else if n \<ge> maxUint64 div 10 + 1 then Some maxUint64
      else if 10 * n + (of_char c - 48) > maxUint64 then Some maxUint64
      else ParseUint (10 * n + (of_char c - 48)) cs)"

text \<open>
  \<^verbatim>\<open>ParseInt\<close>: the empty string and a sign alone are syntax errors; a syntax error
  gives 0; a value out of the range of \<^verbatim>\<open>int64\<close> gives the nearest bound.
\<close>

definition Atoi :: "string \<Rightarrow> int" where
  "Atoi s =
     (let neg = (case s of [] \<Rightarrow> False | c # _ \<Rightarrow> c = CHR ''-'');
          body = (case s of [] \<Rightarrow> [] | c # r \<Rightarrow> if c = CHR ''+'' \<or> c = CHR ''-'' then r else s)
      in if body = [] then 0
         else
           (case ParseUint 0 body of
              None \<Rightarrow> 0
            | Some un \<Rightarrow>
                if \<not> neg \<and> un \<ge> 2 ^ 63 then 2 ^ 63 - 1
                else if neg \<and> un > 2 ^ 63 then - (2 ^ 63)
                else if neg then - un else un))"

subsection \<open>Errors, connections and the session\<close>

text \<open>\<^verbatim>\<open>io.EOF\<close>, and an error with its message (\<^verbatim>\<open>errors.New\<close>, \<^verbatim>\<open>fmt.Errorf\<close>, or
  one that a library call returned).\<close>

datatype error = EOF | Error string

text \<open>The fields of \<^verbatim>\<open>tls.Config\<close> that line 197 sets.\<close>

datatype Config = Config (InsecureSkipVerify: bool) (MinVersion: "16 word") (MaxVersion: "16 word")

text \<open>
  A \<^verbatim>\<open>net.Conn\<close>: a TCP socket, named by a number, or \<^verbatim>\<open>tls.Client(conn, &config)\<close>.
  \<^verbatim>\<open>bufio.NewReader(c)\<close> and \<^verbatim>\<open>bufio.NewWriter(c)\<close> are named by the connection
  they wrap.
\<close>

datatype conn = TCPConn nat | TLSClient conn Config

datatype reader = NewReader conn

datatype writer = NewWriter conn

text \<open>
  \<^verbatim>\<open>type proxyServer struct\<close> (line 22). The fields \<^verbatim>\<open>id\<close>, \<^verbatim>\<open>mutex\<close>, \<^verbatim>\<open>log\<close>
  and \<^verbatim>\<open>stopChan\<close> are left out: the stop channel is modelled by the rendezvous of its
  sender with the pump's \<^verbatim>\<open>select\<close>.
\<close>

record proxyServer =
  timeout :: int
  clientReader :: reader
  clientWriter :: writer
  originReader :: reader
  originWriter :: writer
  origin :: conn
  passThrough :: bool
  sem :: int
  proxyProtocol :: bool
  stop :: bool
  secureCommands :: "string list"

subsection \<open>The suspend gate (lines 106-143)\<close>

definition semLock :: "proxyServer \<Rightarrow> proxyServer" where
  "semLock s = s\<lparr>sem := sem s + 1\<rparr>"

definition semUnlock :: "proxyServer \<Rightarrow> proxyServer" where
  "semUnlock s = s\<lparr>sem := sem s - 1\<rparr>"

definition semFree :: "proxyServer \<Rightarrow> bool" where
  "semFree s = (sem s < 1)"

definition semLocked :: "proxyServer \<Rightarrow> bool" where
  "semLocked s = (sem s > 0)"

text \<open>
  \<^verbatim>\<open>suspend\<close> (line 122). The counter \<^verbatim>\<open>s.sem\<close> is shared with the pump, which
  releases it between two polls: \<open>gate k\<close> is the value \<^verbatim>\<open>s.sem\<close> holds when the poll
  with \<^verbatim>\<open>cnt = k\<close> reads it, \<open>k\<close> seconds after the call (one \<^verbatim>\<open>time.Sleep\<close> of a
  second between two polls). The loop is \<open>suspend_loop\<close>, from \<^verbatim>\<open>cnt\<close> on.
\<close>

definition errSemaphore :: error where
  "errSemaphore = Error ''Could not get semaphore to send to client''"

function suspend_loop :: "(nat \<Rightarrow> int) \<Rightarrow> nat \<Rightarrow> proxyServer \<Rightarrow> error option \<times> proxyServer" where
  "suspend_loop gate cnt s =
     (if int cnt > timeout s then (Some errSemaphore, s)
      else if semFree (s\<lparr>sem := gate cnt\<rparr>) then (None, s\<lparr>sem := gate cnt, passThrough := False\<rparr>)
      else suspend_loop gate (Suc cnt) (s\<lparr>sem := gate cnt\<rparr>))"
  by pat_completeness auto
termination
  by (relation "measure (\<lambda>(gate, cnt, s). nat (timeout s + 1 - int cnt))") auto

definition suspend :: "(nat \<Rightarrow> int) \<Rightarrow> proxyServer \<Rightarrow> error option \<times> proxyServer" where
  "suspend gate s = suspend_loop gate 0 s"

definition unsuspend :: "proxyServer \<Rightarrow> proxyServer" where
  "unsuspend s = s\<lparr>passThrough := True\<rparr>"

subsection \<open>commandLog (line 359)\<close>

text \<open>The loop over \<^verbatim>\<open>s.secureCommands\<close> that sets \<^verbatim>\<open>hideParams\<close>.\<close>

fun hideParams :: "string \<Rightarrow> string list \<Rightarrow> bool" where
  "hideParams command [] = False"
| "hideParams command (c # cs) = (if command = c then True else hideParams command cs)"

text \<open>The command of a line, as lines 191 and 360 compute it.\<close>

definition commandOf :: "(string \<Rightarrow> string) \<Rightarrow> string \<Rightarrow> string" where
  "commandOf mapUpper line = ToUpper mapUpper (hd (SplitN (Trim line crlf) SP 2))"

text \<open>The message that \<^verbatim>\<open>commandLog\<close> gives to \<^verbatim>\<open>s.log.debug\<close>, format expanded.\<close>

definition commandLog :: "(string \<Rightarrow> string) \<Rightarrow> proxyServer \<Rightarrow> string \<Rightarrow> string" where
  "commandLog mapUpper s line =
     (let command = commandOf mapUpper line in
      if hideParams command (secureCommands s)
      then ''send to origin: '' @ command @ '' ********''
      else ''send to origin: '' @ line)"

subsection \<open>Events, outcomes and the environment\<close>

text \<open>\<^verbatim>\<open>net.IP\<close> is a byte slice; \<open>To4\<close> is \<^verbatim>\<open>IP.To4\<close>: the four bytes of an IPv4
  address, or \<^verbatim>\<open>nil\<close> when the address is not an IPv4 address.\<close>

type_synonym IP = "8 word list"


text \<open>\<^verbatim>\<open>proxyproto.Header\<close> of the library go-proxyproto, with the constants of its
  fields \<^verbatim>\<open>Command\<close> and \<^verbatim>\<open>TransportProtocol\<close>. An address is \<open>None\<close> when
  \<^verbatim>\<open>net.ParseIP\<close> returned \<^verbatim>\<open>nil\<close>.\<close>

datatype ProtocolVersionAndCommand = LOCAL | PROXY

datatype AddressFamilyAndProtocol =
  UNSPEC | TCPv4 | UDPv4 | TCPv6 | UDPv6 | UnixStream | UnixDatagram

record Header =
  Version :: "8 word"
  Command :: ProtocolVersionAndCommand
  TransportProtocol :: AddressFamilyAndProtocol
  SourceAddress :: "IP option"
  DestinationAddress :: "IP option"
  SourcePort :: "16 word"
  DestinationPort :: "16 word"

text \<open>
  The calls on connections and channels that the theorems observe, in the order in which
  they are made. \<open>Read\<close> is a \<^verbatim>\<open>from.Read(buff)\<close> of the pump's reader: the bytes and
  the error that it returned, and the pass-through flag and the gate counter as lines
  288 and 305 then evaluate them.
\<close>

datatype event =
    StopSend
  | Dial string
  | HeaderWriteTo Header conn
  | ConnWrite conn string
  | ReadString reader
  | ConnClose conn
  | SetReadDeadline conn
  | Read reader string "error option" bool int
  | Write writer string
  | Flush writer

text \<open>How a call ends: it returns, it panics (an index out of range, a send on a closed
  channel), or it blocks for ever.\<close>

datatype 'a outcome = Returned 'a | Panicked | Blocked

text \<open>
  What the world answers to \<^verbatim>\<open>switchOrigin\<close>:
  \<^item> \<open>semAt k\<close>: the gate counter that the poll of \<^verbatim>\<open>suspend\<close> at second \<open>k\<close> reads;
  \<^item> \<open>pumpSelecting\<close>: a pump is at its \<^verbatim>\<open>select\<close> (line 320), so that the send on the
    unbuffered stop channel (line 228) finds its receiver;
  \<^item> \<open>netDial\<close>: \<^verbatim>\<open>net.Dial("tcp", addr)\<close>, the number of the new socket and the error;
  \<^item> \<open>netLookupIP\<close>, \<open>netParseIP\<close>, \<open>ipString\<close>: \<^verbatim>\<open>net.LookupIP\<close>, \<^verbatim>\<open>net.ParseIP\<close> and
    \<^verbatim>\<open>IP.String\<close>;
  \<^item> \<open>headerWriteTo\<close>: the error of \<^verbatim>\<open>Header.WriteTo(conn)\<close>;
  \<^item> \<open>welcomeRead\<close>: the result of the \<^verbatim>\<open>ReadString\<close> of line 248;
  \<^item> \<open>replayWrite i\<close>, \<open>replayRead i\<close>: the results of the \<^verbatim>\<open>Write\<close> (line 181) and of
    the \<^verbatim>\<open>ReadString\<close> (line 186) for the command of index \<open>i\<close>;
  \<^item> \<open>mapUpper\<close>: \<^verbatim>\<open>strings.Map(unicode.ToUpper, s)\<close> of the Go release;
  \<^item> \<open>closeAfterInstall\<close>, \<open>flagAfterClear\<close>: how the pump's stop case (lines 345-348),
    which runs in the pump's goroutine once the send of line 228 is taken, falls among
    lines 230-264: whether \<^verbatim>\<open>s.origin.Close()\<close> (line 347) reads \<^verbatim>\<open>s.origin\<close> after
    line 210 has stored the new connection there, and whether \<^verbatim>\<open>s.stop = true\<close> (line
    348) is stored after the \<^verbatim>\<open>s.stop = false\<close> of line 232, 257 or 263.
\<close>

record environment =
  semAt :: "nat \<Rightarrow> int"
  pumpSelecting :: bool
  netDial :: "string \<Rightarrow> nat \<times> error option"
  netLookupIP :: "string \<Rightarrow> IP list \<times> error option"
  netParseIP :: "string \<Rightarrow> IP option"
  ipString :: "IP \<Rightarrow> string"
  headerWriteTo :: "Header \<Rightarrow> conn \<Rightarrow> error option"
  welcomeRead :: "string \<times> error option"
  replayWrite :: "nat \<Rightarrow> error option"
  replayRead :: "nat \<Rightarrow> string \<times> error option"
  mapUpper :: "string \<Rightarrow> string"
  closeAfterInstall :: bool
  flagAfterClear :: bool

subsection \<open>sendProxyHeader (line 149)\<close>

text \<open>
  The indexings \<^verbatim>\<open>sourceAddr[1]\<close>, \<^verbatim>\<open>destinationAddr[1]\<close> and \<^verbatim>\<open>hostIP[0]\<close> panic out
  of range. The guard of line 157 compares \<^verbatim>\<open>err\<close> with itself, as the source does.
\<close>

definition sendProxyHeader ::
  "environment \<Rightarrow> conn \<Rightarrow> string \<Rightarrow> string \<Rightarrow> error option outcome \<times> event list" where
  "sendProxyHeader env conn clientAddr originAddr =
     (let sourceAddr = Split clientAddr (CHR '':'');
          destinationAddr = Split originAddr (CHR '':'')
      in if length sourceAddr < 2 then (Panicked, [])
         else if length destinationAddr < 2 then (Panicked, [])
         else
           let sourcePort = Atoi (sourceAddr ! 1);
               destinationPort = Atoi (destinationAddr ! 1);
               (hostIP, err) = netLookupIP env (destinationAddr ! 0)
           in if err \<noteq> err then (Returned err, [])
              else (case hostIP of
                      [] \<Rightarrow> (Panicked, [])
                    | ip # _ \<Rightarrow>
                        let proxyProtocolHeader =
                              \<lparr>Version = 1, Command = PROXY, TransportProtocol = TCPv4,
                               SourceAddress = netParseIP env (sourceAddr ! 0),
                               DestinationAddress = netParseIP env (ipString env ip),
                               SourcePort = word_of_int sourcePort,
                               DestinationPort = word_of_int destinationPort\<rparr>
                        in (Returned (headerWriteTo env proxyProtocolHeader conn),
                            [HeaderWriteTo proxyProtocolHeader conn])))"

subsection \<open>sendTLSCommand (line 178)\<close>

definition errTLSConnection :: error where
  "errTLSConnection = Error ''failed to make TLS connection''"

definition errTLSNotSupported :: error where
  "errTLSNotSupported = Error ''origin server has not support TLS connection''"

text \<open>
  The loop of line 179 over the commands still to replay, \<open>i\<close> the index of the first of
  them: it returns the error, or the connection, reader and writer that lines 210-212
  install. \<^verbatim>\<open>code[0]\<close> panics when the code is empty.
\<close>

fun replay ::
  "environment \<Rightarrow> 16 word \<Rightarrow> nat \<Rightarrow> string list \<Rightarrow> conn \<Rightarrow> reader \<Rightarrow> writer
   \<Rightarrow> (error + conn \<times> reader \<times> writer) outcome \<times> event list" where
  "replay env tlsProtocol i [] newConn rd wr = (Returned (Inr (newConn, rd, wr)), [])"
| "replay env tlsProtocol i (cmd # cmds) newConn rd wr =
     (if replayWrite env i \<noteq> None then (Returned (Inl errTLSConnection), [ConnWrite newConn cmd])
      else
        let (str, err) = replayRead env i in
        if err \<noteq> None
        then (Returned (Inl errTLSConnection), [ConnWrite newConn cmd, ReadString rd])
        else if ToUpper (mapUpper env) (hd (SplitN (Trim cmd crlf) SP 2)) = ''AUTH''
        then
          (case hd (SplitN (Trim str crlf) SP 2) of
             [] \<Rightarrow> (Panicked, [ConnWrite newConn cmd, ReadString rd])
           | c0 # _ \<Rightarrow>
               if c0 = CHR ''5''
               then (Returned (Inl errTLSNotSupported), [ConnWrite newConn cmd, ReadString rd])
               else
                 let config = Config True tlsProtocol tlsProtocol;
                     newConn' = TLSClient newConn config;
                     (r, ev) = replay env tlsProtocol (Suc i) cmds newConn'
                                 (NewReader newConn') (NewWriter newConn')
                 in (r, ConnWrite newConn cmd # ReadString rd # ev))
        else
          let (r, ev) = replay env tlsProtocol (Suc i) cmds newConn rd wr
          in (r, ConnWrite newConn cmd # ReadString rd # ev))"

definition sendTLSCommand ::
  "environment \<Rightarrow> 16 word \<Rightarrow> string list \<Rightarrow> conn \<Rightarrow> reader \<Rightarrow> writer \<Rightarrow> proxyServer
   \<Rightarrow> error option outcome \<times> proxyServer \<times> event list" where
  "sendTLSCommand env tlsProtocol previousTLSCommands newConn rd wr s =
     (case replay env tlsProtocol 0 previousTLSCommands newConn rd wr of
        (Returned (Inl e), ev) \<Rightarrow> (Returned (Some e), s, ev)
      | (Returned (Inr (c, r, w)), ev) \<Rightarrow>
          (Returned None, s\<lparr>origin := c, originReader := r, originWriter := w\<rparr>, ev)
      | (Panicked, ev) \<Rightarrow> (Panicked, s, ev)
      | (Blocked, ev) \<Rightarrow> (Blocked, s, ev))"

subsection \<open>switchOrigin (line 217)\<close>

text \<open>
  The stop case of the pump's \<^verbatim>\<open>select\<close> (lines 344-349), on the session as the pump
  sees it: the origin socket is closed and the stop flag set.
\<close>

definition stopCase :: "proxyServer \<Rightarrow> proxyServer \<times> event list" where
  "stopCase s = (s\<lparr>stop := True\<rparr>, [ConnClose (origin s)])"

text \<open>Lines 230-264, from the dial on.\<close>

definition switchOrigin_dial ::
  "environment \<Rightarrow> string \<Rightarrow> string \<Rightarrow> 16 word \<Rightarrow> string list \<Rightarrow> proxyServer
   \<Rightarrow> error option outcome \<times> proxyServer \<times> event list" where
  "switchOrigin_dial env clientAddr originAddr tlsProtocol previousTLSCommands s =
     (let (n, err) = netDial env originAddr in
      if err \<noteq> None then (Returned err, s\<lparr>stop := False\<rparr>, [Dial originAddr])
      else
        let c = TCPConn n; rd = NewReader c; wr = NewWriter c; old = origin s;
            (h, hev) = (if proxyProtocol s then sendProxyHeader env c clientAddr originAddr
                        else (Returned None, []))
        in (case h of
              Returned (Some e) \<Rightarrow> (Returned (Some e), s, Dial originAddr # hev)
            | Panicked \<Rightarrow> (Panicked, s, Dial originAddr # hev)
            | Blocked \<Rightarrow> (Blocked, s, Dial originAddr # hev)
            | Returned None \<Rightarrow>
                let (str, rerr) = welcomeRead env in
                if rerr \<noteq> None then (Returned rerr, s, Dial originAddr # hev @ [ReadString rd])
                else
                  (case sendTLSCommand env tlsProtocol previousTLSCommands c rd wr s of
                     (Returned (Some e), s', tev) \<Rightarrow>
                       (Returned (Some e), s'\<lparr>stop := False\<rparr>,
                        Dial originAddr # hev @ [ReadString rd] @ tev @ [ConnClose c])
                   | (Returned None, s', tev) \<Rightarrow>
                       (Returned None, s'\<lparr>stop := False\<rparr>,
                        Dial originAddr # hev @ [ReadString rd] @ tev @ [ConnClose old])
                   | (Panicked, s', tev) \<Rightarrow>
                       (Panicked, s', Dial originAddr # hev @ [ReadString rd] @ tev)
                   | (Blocked, s', tev) \<Rightarrow>
                       (Blocked, s', Dial originAddr # hev @ [ReadString rd] @ tev))))"

text \<open>
  Line 228 and what follows. The send on the stop channel returns when the pump's
  \<^verbatim>\<open>select\<close> takes its stop case; without a pump at its \<^verbatim>\<open>select\<close> the send blocks
  for ever. The pump's goroutine then runs lines 345-348 while \<^verbatim>\<open>switchOrigin\<close> runs
  lines 230-264, and nothing orders the two. The result is the session and the events
  once both are through:
  \<^item> line 347 closes the socket that \<^verbatim>\<open>s.origin\<close> holds when it runs: the old origin,
    or, when the switch succeeds and line 347 runs after line 210, the new one (the
    close is listed right after the stop in the first case, last in the second);
  \<^item> line 348 sets the stop flag: the flag ends set when no line clears it, the call
    returning at line 243 or 249 or panicking, or when line 348 runs after the line that
    clears it.
\<close>

definition switchOrigin_stop ::
  "environment \<Rightarrow> string \<Rightarrow> string \<Rightarrow> 16 word \<Rightarrow> string list \<Rightarrow> proxyServer
   \<Rightarrow> error option outcome \<times> proxyServer \<times> event list" where
  "switchOrigin_stop env clientAddr originAddr tlsProtocol previousTLSCommands s =
     (if \<not> pumpSelecting env then (Blocked, s, [])
      else
        let (r, s2, ev) = switchOrigin_dial env clientAddr originAddr tlsProtocol
                            previousTLSCommands (s\<lparr>stop := True\<rparr>);
            s3 = (if flagAfterClear env then s2\<lparr>stop := True\<rparr> else s2)
        in if closeAfterInstall env \<and> r = Returned None
           then (r, s3, StopSend # ev @ [ConnClose (origin s2)])
           else (r, s3, StopSend # ConnClose (origin s) # ev))"

text \<open>\<^verbatim>\<open>switchOrigin\<close>: the deferred \<^verbatim>\<open>unsuspend\<close> runs when the function returns or
  panics.\<close>

definition switchOrigin ::
  "environment \<Rightarrow> string \<Rightarrow> string \<Rightarrow> 16 word \<Rightarrow> string list \<Rightarrow> proxyServer
   \<Rightarrow> error option outcome \<times> proxyServer \<times> event list" where
  "switchOrigin env clientAddr originAddr tlsProtocol previousTLSCommands s =
     (if passThrough s
      then
        (case suspend (semAt env) s of
           (Some e, s1) \<Rightarrow> (Returned (Some e), s1, [])
         | (None, s1) \<Rightarrow>
             (case switchOrigin_stop env clientAddr originAddr tlsProtocol
                     previousTLSCommands s1 of
                (Blocked, s2, ev) \<Rightarrow> (Blocked, s2, ev)
              | (r, s2, ev) \<Rightarrow> (r, unsuspend s2, ev)))
      else switchOrigin_stop env clientAddr originAddr tlsProtocol previousTLSCommands s)"

subsection \<open>The pump: start (line 267)\<close>

text \<open>
  \<^verbatim>\<open>start\<close> runs two goroutines, the reader (lines 279-316) and the writer loop (lines
  318-355), over the channels \<^verbatim>\<open>read\<close>, \<^verbatim>\<open>send\<close>, \<^verbatim>\<open>errchan\<close>, \<^verbatim>\<open>done\<close> and the stop
  channel. A state of the pump holds what the two share: the session, the buffer
  \<^verbatim>\<open>buff\<close>, the lengths \<open>n\<close> of the slices \<^verbatim>\<open>buff[:n]\<close> queued on \<^verbatim>\<open>read\<close> (a slice
  shares the array of \<^verbatim>\<open>buff\<close>), whether \<^verbatim>\<open>read\<close> and \<^verbatim>\<open>errchan\<close> are closed, and
  \<^verbatim>\<open>lastError\<close>; and where each goroutine stands.
\<close>

definition BUFFER_SIZE :: nat where
  "BUFFER_SIZE = 4096"

text \<open>
  The reader is about to read (line 281), waits for the acknowledgement after a read
  without error (line 312) or after EOF (line 294), sends on the stop channel (line 297),
  sends its error on \<^verbatim>\<open>errchan\<close> (line 285), sends on \<^verbatim>\<open>done\<close> (line 315), is gone,
  or has panicked.
\<close>

datatype readerPC =
  RRead | RWaitSend | RWaitSendEOF | RSendStop | RSendErr error | RSendDone | RExit | RPanic

text \<open>The writer loop is at its \<^verbatim>\<open>select\<close> (line 320), sends the acknowledgement (line
  340), waits for \<^verbatim>\<open>done\<close> (line 353, \<^verbatim>\<open>read\<close> closed), or has returned.\<close>

datatype mainPC = MSelect | MSendAck | MWaitDone | MReturned

record pump =
  srv :: proxyServer
  fromR :: reader
  toW :: writer
  buff :: string
  readCh :: "nat list"
  readClosed :: bool
  errClosed :: bool
  lastError :: "error option"
  rpc :: readerPC
  mpc :: mainPC
  events :: "event list"

text \<open>
  A step of the pump or of another goroutine of the session:
  \<^item> \<open>FromRead data err\<close>: \<^verbatim>\<open>from.Read(buff)\<close> returns, having stored \<open>data\<close> at the
    front of \<^verbatim>\<open>buff\<close>, and the reader goes on to the channel operation at which it
    blocks next (lines 281-310 are one step: the flag and the gate are read as they are
    when the read returns, and the send on the buffered \<^verbatim>\<open>read\<close> does not block);
  \<^item> \<open>ToWrite werr ferr\<close>: the \<^verbatim>\<open>select\<close> takes a slice from \<^verbatim>\<open>read\<close>; \<open>werr\<close> and
    \<open>ferr\<close> are the errors of \<^verbatim>\<open>to.Write\<close> and \<^verbatim>\<open>to.Flush\<close>;
  \<^item> \<open>SendAck\<close>: the send of line 340 meets the receive of line 294 or 312;
  \<^item> \<open>ErrChan\<close>: \<^verbatim>\<open>safeSetChanel\<close> (line 285) gets on: the reader's error meets the
    \<^verbatim>\<open>errchan\<close> case of the \<^verbatim>\<open>select\<close>, or \<^verbatim>\<open>errchan\<close> is closed;
  \<^item> \<open>StopReader\<close>, \<open>StopSwitcher\<close>: the send on the stop channel by the reader (line 297)
    or by \<^verbatim>\<open>switchOrigin\<close> (line 228) meets the stop case of the \<^verbatim>\<open>select\<close>;
  \<^item> \<open>DoneChan\<close>: the send of line 315 meets the receive of line 353;
  \<^item> \<open>OtherSemLock\<close>: \<^verbatim>\<open>sendToOrigin\<close> acquires the gate (line 93);
  \<^item> \<open>OtherPassThrough b\<close>: \<^verbatim>\<open>suspend\<close> (line 131) or \<^verbatim>\<open>unsuspend\<close> (line 142) sets
    the pass-through flag.
\<close>

datatype action =
    FromRead string "error option"
  | ToWrite "error option" "error option"
  | SendAck
  | ErrChan
  | StopReader
  | StopSwitcher
  | DoneChan
  | OtherSemLock
  | OtherPassThrough bool

text \<open>Lines 288-294 and 305-312: the slice \<^verbatim>\<open>buff[:n]\<close> is sent on \<^verbatim>\<open>read\<close> when
  pass-through is set or the gate is held, and the gate is released when it is held;
  then the reader waits at \<open>next\<close>. A send on the closed channel panics.\<close>

definition forward :: "nat \<Rightarrow> readerPC \<Rightarrow> pump \<Rightarrow> pump" where
  "forward n next p =
     (if passThrough (srv p) \<or> semLocked (srv p)
      then
        (if readClosed p then p\<lparr>rpc := RPanic\<rparr>
         else p\<lparr>readCh := readCh p @ [n],
                srv := (if semLocked (srv p) then semUnlock (srv p) else srv p),
                rpc := next\<rparr>)
      else p\<lparr>rpc := next\<rparr>)"

text \<open>The writer loop leaves its loop: line 352 closes \<^verbatim>\<open>read\<close>, line 353 waits.\<close>

definition leaveLoop :: "pump \<Rightarrow> pump" where
  "leaveLoop p = p\<lparr>readClosed := True, mpc := MWaitDone\<rparr>"

text \<open>Lines 344-349 in the pump.\<close>

definition pumpStop :: "pump \<Rightarrow> pump" where
  "pumpStop p =
     leaveLoop (p\<lparr>errClosed := True, srv := fst (stopCase (srv p)),
                  events := events p @ snd (stopCase (srv p))\<rparr>)"

text \<open>
  Modelled from the spec: \<^verbatim>\<open>safeSetChanel\<close>, which line 285 calls with \<^verbatim>\<open>errchan\<close> and
  the error of the read, is not in the file. ``On any other read error, the reader sends
  the error on a dedicated error channel and exits'': the send meets the \<^verbatim>\<open>errchan\<close>
  case of the \<^verbatim>\<open>select\<close> (lines 341-343), which records the error and leaves the
  loop. On the closed channel (after the stop case) no send can take place; the reader
  then goes on to line 315, as the name of the function says. While the channel is open
  and the writer loop is not at its \<^verbatim>\<open>select\<close>, the send waits (\<open>None\<close>).
\<close>

definition safeSetChanel :: "error \<Rightarrow> pump \<Rightarrow> pump option" where
  "safeSetChanel e p =
     (if errClosed p then Some (p\<lparr>rpc := RSendDone\<rparr>)
      else if mpc p = MSelect then Some (leaveLoop (p\<lparr>lastError := Some e, rpc := RSendDone\<rparr>))
      else None)"

text \<open>
  A step is \<open>None\<close> when the goroutines are not where the step needs them. The receive of
  line 321 never finds \<^verbatim>\<open>read\<close> closed, since only line 352 closes it. The mutex that
  lines 326-339 hold belongs to the caller and has no other user in the file.
\<close>

fun step :: "action \<Rightarrow> pump \<Rightarrow> pump option" where
  "step (FromRead data err) p =
     (if rpc p \<noteq> RRead \<or> length data > BUFFER_SIZE then None
      else
        let p1 = p\<lparr>buff := data @ drop (length data) (buff p),
                   events := events p @
                     [Read (fromR p) data err (passThrough (srv p)) (sem (srv p))]\<rparr>
        in (case err of
              Some e \<Rightarrow>
                if e \<noteq> EOF then Some (p1\<lparr>rpc := RSendErr e\<rparr>)
                else Some (forward (length data) RWaitSendEOF p1)
            | None \<Rightarrow>
                let p2 = (if timeout (srv p1) > 0
                          then p1\<lparr>events := events p1 @ [SetReadDeadline (origin (srv p1))]\<rparr>
                          else p1)
                in Some (forward (length data) RWaitSend p2)))"
| "step (ToWrite werr ferr) p =
     (if mpc p \<noteq> MSelect then None
      else
        (case readCh p of
           [] \<Rightarrow> None
         | n # q \<Rightarrow>
             let p1 = p\<lparr>readCh := q, events := events p @ [Write (toW p) (take n (buff p))]\<rparr>
             in (case werr of
                   Some e \<Rightarrow> Some (leaveLoop (p1\<lparr>lastError := Some e\<rparr>))
                 | None \<Rightarrow>
                     let p2 = p1\<lparr>events := events p1 @ [Flush (toW p)]\<rparr>
                     in (case ferr of
                           Some e \<Rightarrow> Some (leaveLoop (p2\<lparr>lastError := Some e\<rparr>))
                         | None \<Rightarrow> Some (p2\<lparr>mpc := MSendAck\<rparr>)))))"
| "step SendAck p =
     (if mpc p = MSendAck \<and> rpc p = RWaitSend then Some (p\<lparr>mpc := MSelect, rpc := RRead\<rparr>)
      else if mpc p = MSendAck \<and> rpc p = RWaitSendEOF
      then Some (p\<lparr>mpc := MSelect, lastError := Some EOF, rpc := RSendStop\<rparr>)
      else None)"
| "step ErrChan p = (case rpc p of RSendErr e \<Rightarrow> safeSetChanel e p | _ \<Rightarrow> None)"
| "step StopReader p =
     (if rpc p = RSendStop \<and> mpc p = MSelect then Some (pumpStop (p\<lparr>rpc := RSendDone\<rparr>))
      else None)"
| "step StopSwitcher p = (if mpc p = MSelect then Some (pumpStop p) else None)"
| "step DoneChan p =
     (if rpc p = RSendDone \<and> mpc p = MWaitDone then Some (p\<lparr>rpc := RExit, mpc := MReturned\<rparr>)
      else None)"
| "step OtherSemLock p = Some (p\<lparr>srv := semLock (srv p)\<rparr>)"
| "step (OtherPassThrough b) p = Some (p\<lparr>srv := (srv p)\<lparr>passThrough := b\<rparr>\<rparr>)"

fun run :: "action list \<Rightarrow> pump \<Rightarrow> pump option" where
  "run [] p = Some p"
| "run (a # as) p = (case step a p of None \<Rightarrow> None | Some p' \<Rightarrow> run as p')"

text \<open>Lines 272-277 and the \<^verbatim>\<open>go\<close> of line 279.\<close>

definition startPump :: "proxyServer \<Rightarrow> reader \<Rightarrow> writer \<Rightarrow> pump" where
  "startPump s from to =
     \<lparr>srv = s, fromR = from, toW = to, buff = replicate BUFFER_SIZE (CHR 0x00), readCh = [],
      readClosed = False, errClosed = False, lastError = None, rpc = RRead, mpc = MSelect,
      events = []\<rparr>"

text \<open>
  \<^verbatim>\<open>start\<close> under a schedule: what it returns, the session and the events when it has
  returned at the end of the schedule, \<open>None\<close> when it has not (or when the schedule
  cannot run). With the stop flag set it returns at line 269.
\<close>

definition start ::
  "action list \<Rightarrow> proxyServer \<Rightarrow> reader \<Rightarrow> writer
   \<Rightarrow> (error option \<times> proxyServer \<times> event list) option" where
  "start sched s from to =
     (if stop s then Some (None, s, [])
      else
        (case run sched (startPump s from to) of
           None \<Rightarrow> None
         | Some p \<Rightarrow> if mpc p = MReturned then Some (lastError p, srv p, events p) else None))"

definition responseProxy ::
  "action list \<Rightarrow> proxyServer \<Rightarrow> (error option \<times> proxyServer \<times> event list) option" where
  "responseProxy sched s = start sched s (originReader s) (clientWriter s)"

text \<open>The slices given to \<^verbatim>\<open>to.Write\<close>, and the slices of the reads that lines 288 and
  305 pass on (no error or EOF; pass-through set or the gate held), both in order.\<close>

fun written :: "event list \<Rightarrow> string list" where
  "written [] = []"
| "written (Write w b # ev) = b # written ev"
| "written (e # ev) = written ev"

fun passedOn :: "event list \<Rightarrow> string list" where
  "passedOn [] = []"
| "passedOn (Read r data err pt g # ev) =
     (if (err = None \<or> err = Some EOF) \<and> (pt \<or> g > 0) then data # passedOn ev else passedOn ev)"
| "passedOn (e # ev) = passedOn ev"

text \<open>The slices that are queued on \<^verbatim>\<open>read\<close>, as the array of \<^verbatim>\<open>buff\<close> now holds them.\<close>

definition queued :: "pump \<Rightarrow> string list" where
  "queued p = map (\<lambda>n. take n (buff p)) (readCh p)"

subsection \<open>What the properties speak about\<close>

text \<open>The writes on connections among the events, in order: the connection and the
  bytes.\<close>

fun replayed :: "event list \<Rightarrow> (conn \<times> string) list" where
  "replayed [] = []"
| "replayed (ConnWrite c x # ev) = (c, x) # replayed ev"
| "replayed (e # ev) = replayed ev"

text \<open>\<^verbatim>\<open>tls.Client\<close> with the configuration of line 197.\<close>

definition tlsClient :: "16 word \<Rightarrow> conn \<Rightarrow> conn" where
  "tlsClient tlsProtocol c = TLSClient c (Config True tlsProtocol tlsProtocol)"

text \<open>The connection on which each command of a list is due when the list is replayed
  from the connection \<open>c\<close> on, every AUTH line wrapping the connection for the lines
  after it; and the connection after the last command. (\<open>up\<close> is the parameter of
  \<open>ToUpper\<close>.)\<close>

fun replayConns :: "(string \<Rightarrow> string) \<Rightarrow> 16 word \<Rightarrow> conn \<Rightarrow> string list \<Rightarrow> conn list" where
  "replayConns up tlsProtocol c [] = []"
| "replayConns up tlsProtocol c (cmd # cmds) =
     c # replayConns up tlsProtocol
           (if commandOf up cmd = ''AUTH'' then tlsClient tlsProtocol c else c) cmds"

fun wrapAfter :: "(string \<Rightarrow> string) \<Rightarrow> 16 word \<Rightarrow> conn \<Rightarrow> string list \<Rightarrow> conn" where
  "wrapAfter up tlsProtocol c [] = c"
| "wrapAfter up tlsProtocol c (cmd # cmds) =
     wrapAfter up tlsProtocol
       (if commandOf up cmd = ''AUTH'' then tlsClient tlsProtocol c else c) cmds"

text \<open>
  The command of a line in the words of claim C9: the first token of the line, tokens
  being separated by white space. White space is what \<^verbatim>\<open>strings.Fields\<close> takes as such
  among the ASCII bytes: tab, line feed, vertical tab, form feed, carriage return and
  space.
\<close>

definition isSpace :: "char \<Rightarrow> bool" where
  "isSpace c = (c \<in> set [CHR 0x09, CHR 0x0A, CHR 0x0B, CHR 0x0C, CHR 0x0D, CHR 0x20])"

definition firstToken :: "string \<Rightarrow> string" where
  "firstToken line = takeWhile (\<lambda>c. \<not> isSpace c) (dropWhile isSpace line)"

text \<open>The code of a response, as line 192 computes it.\<close>

definition codeOf :: "string \<Rightarrow> string" where
  "codeOf str = hd (SplitN (Trim str crlf) SP 2)"

text \<open>
  The environment accepts the commands \<open>cmds\<close>, replayed as the commands of index \<open>i\<close>
  and on: every write and every read succeeds, and the response to an AUTH line has a
  code whose first byte is not \<^verbatim>\<open>5\<close>. \<open>replayEvents\<close> are the writes and reads of such
  a replay, from the connection \<open>c\<close> and its reader on.
\<close>

fun accepted :: "environment \<Rightarrow> nat \<Rightarrow> string list \<Rightarrow> bool" where
  "accepted env i [] = True"
| "accepted env i (cmd # cmds) =
     (replayWrite env i = None \<and> snd (replayRead env i) = None \<and>
      (if commandOf (mapUpper env) cmd = ''AUTH''
       then (case codeOf (fst (replayRead env i)) of [] \<Rightarrow> False | c0 # _ \<Rightarrow> c0 \<noteq> CHR ''5'')
       else True) \<and>
      accepted env (Suc i) cmds)"

fun replayEvents ::
  "(string \<Rightarrow> string) \<Rightarrow> 16 word \<Rightarrow> conn \<Rightarrow> reader \<Rightarrow> string list \<Rightarrow> event list" where
  "replayEvents up tlsProtocol c rd [] = []"
| "replayEvents up tlsProtocol c rd (cmd # cmds) =
     ConnWrite c cmd # ReadString rd #
     (if commandOf up cmd = ''AUTH''
      then replayEvents up tlsProtocol (tlsClient tlsProtocol c)
             (NewReader (tlsClient tlsProtocol c)) cmds
      else replayEvents up tlsProtocol c rd cmds)"

text \<open>
  The invariant of the pump: what was given to the writer, followed by what is queued
  on \<^verbatim>\<open>read\<close>, is what the reader passed on; at most one slice is queued, and while one
  is queued, or the acknowledgement is due, the reader waits for the acknowledgement.
\<close>

definition pumpInv :: "pump \<Rightarrow> bool" where
  "pumpInv p =
     ((rpc p \<noteq> RPanic \<longrightarrow> written (events p) @ queued p = passedOn (events p)) \<and>
      length (readCh p) \<le> 1 \<and>
      (readCh p \<noteq> [] \<longrightarrow> rpc p = RWaitSend \<or> rpc p = RWaitSendEOF) \<and>
      (mpc p = MSendAck \<longrightarrow> readCh p = [] \<and> (rpc p = RWaitSend \<or> rpc p = RWaitSendEOF)))"

text \<open>While the writer loop is in its loop, \<^verbatim>\<open>read\<close> and \<^verbatim>\<open>errchan\<close> are open.\<close>

definition loopOpen :: "pump \<Rightarrow> bool" where
  "loopOpen p = (mpc p = MSelect \<or> mpc p = MSendAck \<longrightarrow> \<not> readClosed p \<and> \<not> errClosed p)"

subsection \<open>An example session\<close>

text \<open>A session as \<^verbatim>\<open>newProxyServer\<close> (line 51) builds it: pass-through, gate free, not
  stopped; the client on socket 0, the origin on socket 1, the default secure commands.\<close>

definition exampleSession :: proxyServer where
  "exampleSession =
     \<lparr>timeout = 2,
      clientReader = NewReader (TCPConn 0), clientWriter = NewWriter (TCPConn 0),
      originReader = NewReader (TCPConn 1), originWriter = NewWriter (TCPConn 1),
      origin = TCPConn 1, passThrough = True, sem = 0, proxyProtocol = True, stop = False,
      secureCommands = [''PASS'', ''ACCT'']\<rparr>"

text \<open>
  An environment in which a switch succeeds: the gate is free, a pump takes the stop,
  the dial gives socket 2, the destination resolves to 10.0.0.2, the header is written,
  the new origin greets with 220 and answers 234 to the first replayed line and 200 to
  the others; the pump's stop case is through before the dial returns.
  \<open>exampleParseIP\<close> and \<open>exampleIPString\<close> are \<^verbatim>\<open>net.ParseIP\<close> and
  \<^verbatim>\<open>IP.String\<close> on the three addresses that the examples use (\<^verbatim>\<open>net.ParseIP\<close> gives
  the 16-byte form).
\<close>

definition v4InV6 :: "IP \<Rightarrow> IP" where
  "v4InV6 ip = [0, 0, 0, 0, 0, 0, 0, 0, 0, 0, 0xff, 0xff] @ ip"

definition exampleV6 :: IP where
  "exampleV6 = [0x20, 0x01, 0x0d, 0xb8, 0, 0, 0, 0, 0, 0, 0, 0, 0, 0, 0, 2]"

definition exampleParseIP :: "string \<Rightarrow> IP option" where
  "exampleParseIP str =
     (if str = ''192.0.2.7'' then Some (v4InV6 [192, 0, 2, 7])
      else if str = ''10.0.0.2'' then Some (v4InV6 [10, 0, 0, 2])
      else if str = ''2001:db8::2'' then Some exampleV6
      else None)"

definition exampleIPString :: "IP \<Rightarrow> string" where
  "exampleIPString ip =
     (if ip = [10, 0, 0, 2] \<or> ip = v4InV6 [10, 0, 0, 2] then ''10.0.0.2''
      else if ip = exampleV6 then ''2001:db8::2''
      else ''192.0.2.7'')"

text \<open>\<^verbatim>\<open>strings.Map(unicode.ToUpper, s)\<close> on the one string with a byte above 0x7F that
  the examples use: \<^verbatim>\<open>pass\<close> written with two long s (U+017F, in UTF-8 the bytes C5
  BF), whose upper case is \<^verbatim>\<open>PASS\<close>.\<close>

definition longS :: string where
  "longS = [CHR 0xC5, CHR 0xBF]"

definition exampleUpper :: "string \<Rightarrow> string" where
  "exampleUpper str = (if str = ''pa'' @ longS @ longS then ''PASS'' else str)"

definition exampleEnv :: environment where
  "exampleEnv =
     \<lparr>semAt = (\<lambda>k. 0), pumpSelecting = True, netDial = (\<lambda>addr. (2, None)),
      netLookupIP = (\<lambda>host. ([[10, 0, 0, 2]], None)),
      netParseIP = exampleParseIP, ipString = exampleIPString,
      headerWriteTo = (\<lambda>h c. None),
      welcomeRead = (''220 ready'' @ crlf, None),
      replayWrite = (\<lambda>i. None),
      replayRead = (\<lambda>i. ((if i = 0 then ''234 AUTH TLS OK'' else ''200 OK'') @ crlf, None)),
      mapUpper = exampleUpper, closeAfterInstall = False, flagAfterClear = False\<rparr>"

text \<open>The lines that a client has negotiated, and TLS 1.2.\<close>

definition examplePrevious :: "string list" where
  "examplePrevious = [''AUTH TLS'' @ crlf, ''PBSZ 0'' @ crlf, ''PROT P'' @ crlf]"

definition exampleTLS :: "16 word" where
  "exampleTLS = 0x0303"


section \<open>Properties\<close>

declare suspend_loop.simps [simp del]

subsection \<open>Strings\<close>

lemma hideParams_iff: "hideParams command cs = (command \<in> set cs)"
  by (induction cs) auto

lemma SplitN_2:
  "SplitN s sep 2 =
     (if sep \<in> set s
      then [takeWhile (\<lambda>c. c \<noteq> sep) s, tl (dropWhile (\<lambda>c. c \<noteq> sep) s)] else [s])"
  by (simp add: numeral_2_eq_2)

lemma hd_SplitN_2: "hd (SplitN s sep 2) = takeWhile (\<lambda>c. c \<noteq> sep) s"
proof (cases "sep \<in> set s")
  case True
  then show ?thesis by (simp add: SplitN_2)
next
  case False
  then have T: "takeWhile (\<lambda>c. c \<noteq> sep) s = s"
    by (induction s) auto
  show ?thesis by (simp add: SplitN_2 False T)
qed

text \<open>The command of a line is what stands before the first space, once the line's
  leading and trailing CR and LF bytes are cut, in upper case.\<close>

lemma commandOf_token:
  "commandOf up line = ToUpper up (takeWhile (\<lambda>c. c \<noteq> SP) (Trim line crlf))"
  by (simp add: commandOf_def hd_SplitN_2)

lemma Trim_command_line:
  assumes "set c \<inter> {SP, CR, LF} = {}"
  shows "takeWhile (\<lambda>x. x \<noteq> SP) (Trim (c @ SP # p) crlf) = c"
proof -
  let ?cut = "\<lambda>x. x \<in> set crlf"
  have sp: "\<not> ?cut SP" by (simp add: crlf_def SP_def CR_def LF_def)
  have c: "\<forall>x\<in>set c. \<not> ?cut x \<and> x \<noteq> SP" using assms by (auto simp: crlf_def)
  have 1: "dropWhile ?cut (c @ SP # p) = c @ SP # p"
    using c sp by (cases c) auto
  have "rev (c @ SP # p) = rev p @ SP # rev c" by simp
  then have "\<exists>q. dropWhile ?cut (rev (c @ SP # p)) = q @ SP # rev c"
    using sp by (cases "\<forall>x\<in>set (rev p). ?cut x") (simp_all add: dropWhile_append)
  then obtain q where "dropWhile ?cut (rev (c @ SP # p)) = q @ SP # rev c" by blast
  then have "Trim (c @ SP # p) crlf = c @ SP # rev q"
    by (simp add: Trim_def 1)
  then show ?thesis using c by (simp add: takeWhile_tail)
qed

text \<open>A command name without space, CR or LF, followed by a space and any parameter,
  has that name, in upper case, as its command.\<close>

lemma commandOf_parameter:
  "set c \<inter> {SP, CR, LF} = {} \<Longrightarrow> commandOf up (c @ SP # p) = ToUpper up c"
  by (simp add: commandOf_token Trim_command_line)

subsection \<open>C9: commandLog hides the parameter of a secure command\<close>

text \<open>
  Claim C9, as amended. Let the command of a line be the text before the first space
  (the byte 0x20) of the line, once the CR and LF bytes at both ends of the line are
  cut, in upper case (letter by letter when the text is ASCII, by \<open>up\<close> otherwise). When
  the command is an entry of the secure-commands list, the message that \<open>commandLog\<close>
  logs is \<^verbatim>\<open>send to origin: \<close>, the command and \<^verbatim>\<open> ********\<close>; for every other line it
  is \<^verbatim>\<open>send to origin: \<close> and the whole line. So a line that is a name without space, CR
  or LF, a space and a parameter logs, when the name in upper case is a secure command,
  a message in which the parameter does not occur: two such lines with the same name log
  the same message.
\<close>

theorem commandLog_redaction:
  "(let cut = (\<lambda>c. c = CR \<or> c = LF);
        name = takeWhile (\<lambda>c. c \<noteq> SP) (rev (dropWhile cut (rev (dropWhile cut line))));
        command = (if list_all (\<lambda>c. (of_char c :: nat) < 128) name then map toUpperByte name
                   else up name)
    in (command \<in> set (secureCommands s) \<longrightarrow>
          commandLog up s line = ''send to origin: '' @ command @ '' ********'') \<and>
       (command \<notin> set (secureCommands s) \<longrightarrow>
          commandLog up s line = ''send to origin: '' @ line)) \<and>
   (set c \<inter> {SP, CR, LF} = {} \<and> ToUpper up c \<in> set (secureCommands s) \<longrightarrow>
      (\<forall>p. commandLog up s (c @ SP # p) = ''send to origin: '' @ ToUpper up c @ '' ********''))"
proof -
  have cut: "(\<lambda>c. c \<in> set crlf) = (\<lambda>c. c = CR \<or> c = LF)"
    by (auto simp: crlf_def)
  have cmd: "commandOf up line =
      (let name = takeWhile (\<lambda>c. c \<noteq> SP)
                    (rev (dropWhile (\<lambda>c. c = CR \<or> c = LF) (rev (dropWhile (\<lambda>c. c = CR \<or> c = LF) line))))
       in if list_all (\<lambda>c. (of_char c :: nat) < 128) name then map toUpperByte name else up name)"
    by (simp add: commandOf_token Trim_def cut ToUpper_def isASCII_def Let_def)
  have par: "commandLog up s (c @ SP # p) = ''send to origin: '' @ ToUpper up c @ '' ********''"
    if "set c \<inter> {SP, CR, LF} = {}" "ToUpper up c \<in> set (secureCommands s)" for p
    using that by (simp add: commandLog_def hideParams_iff commandOf_parameter)
  show ?thesis
    using par by (simp add: commandLog_def hideParams_iff cmd Let_def)
qed

text \<open>
  With the secure commands PASS and ACCT: lines that are redacted (in lower case, without
  parameter, after an empty line, with the long s), and lines that are logged in full
  (another command; a tab, which is no space, after the name; a space before the name).
\<close>

theorem commandLog_redaction_witness:
  "commandLog exampleUpper exampleSession (''PASS hunter2'' @ crlf) = ''send to origin: PASS ********'' \<and>
   commandLog exampleUpper exampleSession (''pass 1234'' @ crlf) = ''send to origin: PASS ********'' \<and>
   commandLog exampleUpper exampleSession (''PASS'' @ crlf) = ''send to origin: PASS ********'' \<and>
   commandLog exampleUpper exampleSession (crlf @ ''acct 12 34'' @ crlf) = ''send to origin: ACCT ********'' \<and>
   commandLog exampleUpper exampleSession (''pa'' @ longS @ longS @ '' hunter2'' @ crlf) =
     ''send to origin: PASS ********'' \<and>
   commandLog exampleUpper exampleSession (''USER alice'' @ crlf) = ''send to origin: USER alice'' @ crlf \<and>
   commandLog exampleUpper exampleSession (''PASS'' @ [CHR 0x09] @ ''hunter2'' @ crlf) =
     ''send to origin: PASS'' @ [CHR 0x09] @ ''hunter2'' @ crlf \<and>
   commandLog exampleUpper exampleSession ('' PASS hunter2'' @ crlf) =
     ''send to origin:  PASS hunter2'' @ crlf"
proof -
  let ?cut = "\<lambda>c. c = CR \<or> c = LF"
  let ?command = "\<lambda>line.
     (let name = takeWhile (\<lambda>c. c \<noteq> SP) (rev (dropWhile ?cut (rev (dropWhile ?cut line))))
      in if list_all (\<lambda>c. (of_char c :: nat) < 128) name then map toUpperByte name
         else exampleUpper name)"
  have sec: "secureCommands exampleSession = [''PASS'', ''ACCT'']"
    by (simp add: exampleSession_def)
  have c1: "?command (''PASS hunter2'' @ crlf) = ''PASS''" by code_simp
  have c2: "?command (''pass 1234'' @ crlf) = ''PASS''" by code_simp
  have c3: "?command (''PASS'' @ crlf) = ''PASS''" by code_simp
  have c4: "?command (crlf @ ''acct 12 34'' @ crlf) = ''ACCT''" by code_simp
  have c5: "?command (''pa'' @ longS @ longS @ '' hunter2'' @ crlf) = ''PASS''" by code_simp
  have c6: "?command (''USER alice'' @ crlf) = ''USER''" by code_simp
  have c7: "?command (''PASS'' @ [CHR 0x09] @ ''hunter2'' @ crlf) = ''PASS'' @ [CHR 0x09] @ ''HUNTER2''"
    by code_simp
  have c8: "?command ('' PASS hunter2'' @ crlf) = []" by code_simp
  have l1: "commandLog exampleUpper exampleSession (''PASS hunter2'' @ crlf) = ''send to origin: PASS ********''"
    using commandLog_redaction [of "''PASS hunter2'' @ crlf" exampleUpper exampleSession "[]"] c1 sec
    by (simp add: Let_def)
  have l2: "commandLog exampleUpper exampleSession (''pass 1234'' @ crlf) = ''send to origin: PASS ********''"
    using commandLog_redaction [of "''pass 1234'' @ crlf" exampleUpper exampleSession "[]"] c2 sec
    by (simp add: Let_def)
  have l3: "commandLog exampleUpper exampleSession (''PASS'' @ crlf) = ''send to origin: PASS ********''"
    using commandLog_redaction [of "''PASS'' @ crlf" exampleUpper exampleSession "[]"] c3 sec
    by (simp add: Let_def)
  have l4: "commandLog exampleUpper exampleSession (crlf @ ''acct 12 34'' @ crlf) = ''send to origin: ACCT ********''"
    using commandLog_redaction [of "crlf @ ''acct 12 34'' @ crlf" exampleUpper exampleSession "[]"] c4 sec
    by (simp add: Let_def)
  have l5: "commandLog exampleUpper exampleSession (''pa'' @ longS @ longS @ '' hunter2'' @ crlf) =
     ''send to origin: PASS ********''"
    using commandLog_redaction [of "''pa'' @ longS @ longS @ '' hunter2'' @ crlf" exampleUpper
        exampleSession "[]"] c5 sec
    by (simp add: Let_def)
  have l6: "commandLog exampleUpper exampleSession (''USER alice'' @ crlf) = ''send to origin: USER alice'' @ crlf"
    using commandLog_redaction [of "''USER alice'' @ crlf" exampleUpper exampleSession "[]"] c6 sec
    by (simp add: Let_def)
  have l7: "commandLog exampleUpper exampleSession (''PASS'' @ [CHR 0x09] @ ''hunter2'' @ crlf) =
     ''send to origin: PASS'' @ [CHR 0x09] @ ''hunter2'' @ crlf"
    using commandLog_redaction [of "''PASS'' @ [CHR 0x09] @ ''hunter2'' @ crlf" exampleUpper
        exampleSession "[]"] c7 sec
    by (simp add: Let_def)
  have l8: "commandLog exampleUpper exampleSession ('' PASS hunter2'' @ crlf) =
     ''send to origin:  PASS hunter2'' @ crlf"
    using commandLog_redaction [of "'' PASS hunter2'' @ crlf" exampleUpper exampleSession "[]"] c8 sec
    by (simp add: Let_def)
  from l1 l2 l3 l4 l5 l6 l7 l8 show ?thesis by blast
qed

text \<open>
  The claim as stated fails: the first white-space separated token of the line
  \<^verbatim>\<open>PASS\<close>, tab, \<^verbatim>\<open>hunter2\<close>, and of the line \<^verbatim>\<open> PASS hunter2\<close> with a space in front,
  is \<^verbatim>\<open>PASS\<close>, a secure command, and \<open>commandLog\<close> logs both lines in full, with the
  password.
\<close>

theorem commandLog_redaction_counterexample:
  "ToUpper exampleUpper (firstToken (''PASS'' @ [CHR 0x09] @ ''hunter2'' @ crlf)) = ''PASS'' \<and>
   ToUpper exampleUpper (firstToken ('' PASS hunter2'' @ crlf)) = ''PASS'' \<and>
   ''PASS'' \<in> set (secureCommands exampleSession) \<and>
   commandLog exampleUpper exampleSession (''PASS'' @ [CHR 0x09] @ ''hunter2'' @ crlf) =
     ''send to origin: PASS'' @ [CHR 0x09] @ ''hunter2'' @ crlf \<and>
   commandLog exampleUpper exampleSession ('' PASS hunter2'' @ crlf) =
     ''send to origin:  PASS hunter2'' @ crlf"
  by code_simp

subsection \<open>C8: suspend and unsuspend\<close>

lemma suspend_loop_success:
  "int k \<le> timeout s \<Longrightarrow> cnt \<le> k \<Longrightarrow> gate k < 1 \<Longrightarrow> (\<forall>j. cnt \<le> j \<and> j < k \<longrightarrow> 1 \<le> gate j)
   \<Longrightarrow> suspend_loop gate cnt s = (None, s\<lparr>sem := gate k, passThrough := False\<rparr>)"
proof (induction "k - cnt" arbitrary: cnt s)
  case 0
  then have "cnt = k" by simp
  with 0 show ?case by (subst suspend_loop.simps) (simp add: semFree_def)
next
  case (Suc d)
  then have lt: "cnt < k" by simp
  with Suc.prems have held: "1 \<le> gate cnt" by simp
  have "suspend_loop gate (Suc cnt) (s\<lparr>sem := gate cnt\<rparr>) =
          (None, s\<lparr>sem := gate cnt\<rparr>\<lparr>sem := gate k, passThrough := False\<rparr>)"
    using Suc.prems Suc.hyps(2) lt by (intro Suc.hyps(1)) auto
  with held lt Suc.prems(1) show ?case
    by (subst suspend_loop.simps) (simp add: semFree_def)
qed

lemma suspend_loop_timeout:
  "(\<forall>j. cnt \<le> j \<and> int j \<le> timeout s \<longrightarrow> 1 \<le> gate j)
   \<Longrightarrow> fst (suspend_loop gate cnt s) = Some errSemaphore \<and>
       passThrough (snd (suspend_loop gate cnt s)) = passThrough s"
proof (induction gate cnt s rule: suspend_loop.induct)
  case (1 gate cnt s)
  show ?case
  proof (cases "int cnt > timeout s")
    case True
    then show ?thesis by (subst (1 2) suspend_loop.simps) simp
  next
    case False
    with "1.prems" have held: "1 \<le> gate cnt" by simp
    then have nf: "\<not> semFree (s\<lparr>sem := gate cnt\<rparr>)" by (simp add: semFree_def)
    have "fst (suspend_loop gate (Suc cnt) (s\<lparr>sem := gate cnt\<rparr>)) = Some errSemaphore \<and>
       passThrough (snd (suspend_loop gate (Suc cnt) (s\<lparr>sem := gate cnt\<rparr>))) =
       passThrough (s\<lparr>sem := gate cnt\<rparr>)"
      using False nf "1.prems" by (intro "1.IH") auto
    with False nf show ?thesis by (subst (1 2) suspend_loop.simps) simp
  qed
qed

text \<open>The state after a successful \<open>suspend\<close>: the poll that found the gate free is the
  first such poll, and only the pass-through flag changes (and the counter, by the pump).\<close>

lemma suspend_first_free:
  assumes "int k \<le> timeout s" and "gate k < 1" and "\<forall>j<k. 1 \<le> gate j"
  shows "suspend gate s = (None, s\<lparr>sem := gate k, passThrough := False\<rparr>)"
  unfolding suspend_def using assms by (intro suspend_loop_success) auto

text \<open>
  Claim C8. \<open>suspend\<close> polls the gate once per second, at the seconds \<open>0, 1, \<dots>, timeout\<close>
  after the call (\<open>gate k\<close> is the counter that the poll at second \<open>k\<close> reads). If the gate
  is free at one of these polls, \<open>suspend\<close> returns \<^verbatim>\<open>nil\<close> and pass-through is false;
  if it is held at all of them, \<open>suspend\<close> returns the error and pass-through is as it
  was. \<open>unsuspend\<close> sets pass-through to true.
\<close>

theorem suspend_polls_gate:
  "((\<exists>k. int k \<le> timeout s \<and> gate k < 1) \<longrightarrow>
       fst (suspend gate s) = None \<and> passThrough (snd (suspend gate s)) = False) \<and>
   ((\<forall>k. int k \<le> timeout s \<longrightarrow> 1 \<le> gate k) \<longrightarrow>
       fst (suspend gate s) = Some errSemaphore \<and>
       passThrough (snd (suspend gate s)) = passThrough s) \<and>
   passThrough (unsuspend s) = True"
proof (intro conjI impI)
  assume "\<exists>k. int k \<le> timeout s \<and> gate k < 1"
  then obtain k where k: "int k \<le> timeout s \<and> gate k < 1" by blast
  define k0 where "k0 = (LEAST k. int k \<le> timeout s \<and> gate k < 1)"
  have k0: "int k0 \<le> timeout s \<and> gate k0 < 1"
    unfolding k0_def using k by (rule LeastI)
  have least: "\<forall>j<k0. 1 \<le> gate j"
  proof (intro allI impI)
    fix j assume j: "j < k0"
    then have "\<not> (int j \<le> timeout s \<and> gate j < 1)"
      unfolding k0_def using not_less_Least by blast
    moreover have "int j \<le> timeout s" using j k0 by linarith
    ultimately show "1 \<le> gate j" by linarith
  qed
  have "suspend gate s = (None, s\<lparr>sem := gate k0, passThrough := False\<rparr>)"
    using k0 least by (intro suspend_first_free) auto
  then show "fst (suspend gate s) = None" "passThrough (snd (suspend gate s)) = False"
    by simp_all
next
  assume a: "\<forall>k. int k \<le> timeout s \<longrightarrow> 1 \<le> gate k"
  then have "fst (suspend_loop gate 0 s) = Some errSemaphore \<and>
       passThrough (snd (suspend_loop gate 0 s)) = passThrough s"
    by (intro suspend_loop_timeout) auto
  then show "fst (suspend gate s) = Some errSemaphore"
    "passThrough (snd (suspend gate s)) = passThrough s"
    by (simp_all add: suspend_def)
next
  show "passThrough (unsuspend s) = True" by (simp add: unsuspend_def)
qed

text \<open>With a timeout of 2: a gate that is held at the seconds 0 and 1 and free at second
  2 lets \<open>suspend\<close> succeed; a gate that stays held makes it fail.\<close>

theorem suspend_polls_gate_witness:
  "fst (suspend (\<lambda>k. if k < 2 then 1 else 0) exampleSession) = None \<and>
   passThrough (snd (suspend (\<lambda>k. if k < 2 then 1 else 0) exampleSession)) = False \<and>
   fst (suspend (\<lambda>k. 1) exampleSession) = Some errSemaphore \<and>
   passThrough (snd (suspend (\<lambda>k. 1) exampleSession)) = True"
proof -
  have t: "timeout exampleSession = 2" and p: "passThrough exampleSession = True"
    by (simp_all add: exampleSession_def)
  have free: "\<exists>k. int k \<le> timeout exampleSession \<and> (if k < 2 then 1 else (0::int)) < 1"
    by (rule exI [of _ 2]) (simp add: t)
  have held: "\<forall>k. int k \<le> timeout exampleSession \<longrightarrow> (1::int) \<le> 1" by simp
  show ?thesis
    using suspend_polls_gate [of exampleSession "\<lambda>k. if k < 2 then 1 else 0"] free
      suspend_polls_gate [of exampleSession "\<lambda>k. 1"] held p
    by simp
qed

subsection \<open>The replay of the TLS commands\<close>

lemma replayed_append: "replayed (ev @ ev') = replayed ev @ replayed ev'"
  by (induction ev rule: replayed.induct) auto

lemma replay_success:
  "replay env tls i cmds c rd wr = (Returned (Inr (c', rd', wr')), ev) \<Longrightarrow>
     replayed ev = zip (replayConns (mapUpper env) tls c cmds) cmds \<and> c' = wrapAfter (mapUpper env) tls c cmds \<and>
     (rd = NewReader c \<and> wr = NewWriter c \<longrightarrow> rd' = NewReader c' \<and> wr' = NewWriter c')"
proof (induction cmds arbitrary: i c rd wr ev)
  case Nil
  then show ?case by simp
next
  case (Cons cmd cmds)
  show ?case
  proof (cases "commandOf (mapUpper env) cmd = ''AUTH''")
    case True
    let ?c = "tlsClient tls c"
    from Cons.prems True obtain ev' where
      r: "replay env tls (Suc i) cmds ?c (NewReader ?c) (NewWriter ?c) = (Returned (Inr (c', rd', wr')), ev')"
      and ev: "ev = ConnWrite c cmd # ReadString rd # ev'"
      by (auto simp: commandOf_def tlsClient_def Let_def split: if_splits prod.splits list.splits)
    from Cons.IH [OF r] ev True show ?thesis by simp
  next
    case False
    from Cons.prems False obtain ev' where
      r: "replay env tls (Suc i) cmds c rd wr = (Returned (Inr (c', rd', wr')), ev')"
      and ev: "ev = ConnWrite c cmd # ReadString rd # ev'"
      by (auto simp: commandOf_def Let_def split: if_splits prod.splits list.splits)
    from Cons.IH [OF r] ev False show ?thesis by simp
  qed
qed

lemma replay_prefix:
  "replay env tls i cmds c rd wr = (r, ev) \<Longrightarrow>
     \<exists>k\<le>length cmds. replayed ev = take k (zip (replayConns (mapUpper env) tls c cmds) cmds)"
proof (induction cmds arbitrary: i c rd wr ev r)
  case Nil
  then show ?case by simp
next
  case (Cons cmd cmds)
  let ?c = "if commandOf (mapUpper env) cmd = ''AUTH'' then tlsClient tls c else c"
  have one: "replayed ev = take 1 (zip (replayConns (mapUpper env) tls c (cmd # cmds)) (cmd # cmds))"
    if "ev = [ConnWrite c cmd] \<or> ev = [ConnWrite c cmd, ReadString rd]"
    using that by auto
  from Cons.prems consider
      (stop) "ev = [ConnWrite c cmd] \<or> ev = [ConnWrite c cmd, ReadString rd]"
    | (go) rd' wr' ev' where "replay env tls (Suc i) cmds ?c rd' wr' = (r, ev')"
        "ev = ConnWrite c cmd # ReadString rd # ev'"
    by (auto simp: commandOf_def tlsClient_def Let_def split: if_splits prod.splits list.splits)
  then show ?case
  proof cases
    case stop
    from one [OF stop] show ?thesis by (intro exI [of _ 1]) simp
  next
    case go
    from Cons.IH [OF go(1)] obtain k where
      k: "k \<le> length cmds" "replayed ev' = take k (zip (replayConns (mapUpper env) tls ?c cmds) cmds)" by blast
    show ?thesis using k go(2) by (intro exI [of _ "Suc k"]) simp
  qed
qed

lemma replay_append:
  "replay env tls i pre c rd wr = (Returned (Inr (c', rd', wr')), ev) \<Longrightarrow>
     replay env tls i (pre @ rest) c rd wr =
       (case replay env tls (i + length pre) rest c' rd' wr' of (r, ev') \<Rightarrow> (r, ev @ ev'))"
proof (induction pre arbitrary: i c rd wr ev)
  case Nil
  then show ?case by (simp split: prod.splits)
next
  case (Cons cmd pre)
  show ?case
  proof (cases "commandOf (mapUpper env) cmd = ''AUTH''")
    case True
    let ?c = "tlsClient tls c"
    from Cons.prems True obtain ev' c0 cs where
      r: "replay env tls (Suc i) pre ?c (NewReader ?c) (NewWriter ?c) = (Returned (Inr (c', rd', wr')), ev')"
      and ev: "ev = ConnWrite c cmd # ReadString rd # ev'"
      and w: "replayWrite env i = None" and rr: "snd (replayRead env i) = None"
      and code: "hd (SplitN (Trim (fst (replayRead env i)) crlf) SP 2) = c0 # cs" "c0 \<noteq> CHR ''5''"
      by (auto simp: commandOf_def tlsClient_def Let_def split: if_splits prod.splits list.splits)
    from Cons.IH [OF r, of ] True ev w rr code show ?thesis
      by (auto simp: commandOf_def tlsClient_def Let_def split: prod.splits)
  next
    case False
    from Cons.prems False obtain ev' where
      r: "replay env tls (Suc i) pre c rd wr = (Returned (Inr (c', rd', wr')), ev')"
      and ev: "ev = ConnWrite c cmd # ReadString rd # ev'"
      and w: "replayWrite env i = None" and rr: "snd (replayRead env i) = None"
      by (auto simp: commandOf_def Let_def split: if_splits prod.splits list.splits)
    from Cons.IH [OF r] False ev w rr show ?thesis
      by (auto simp: commandOf_def Let_def split: prod.splits)
  qed
qed

lemma replayed_replayEvents: "map snd (replayed (replayEvents up tls c rd cmds)) = cmds"
  by (induction cmds arbitrary: c rd) auto

lemma replay_accepted:
  "accepted env i cmds \<Longrightarrow>
     replay env tls i cmds c (NewReader c) (NewWriter c) =
       (Returned (Inr (wrapAfter (mapUpper env) tls c cmds, NewReader (wrapAfter (mapUpper env) tls c cmds),
                       NewWriter (wrapAfter (mapUpper env) tls c cmds))),
        replayEvents (mapUpper env) tls c (NewReader c) cmds)"
proof (induction cmds arbitrary: i c)
  case Nil
  then show ?case by simp
next
  case (Cons cmd cmds)
  then show ?case
    by (auto simp: commandOf_def codeOf_def tlsClient_def Let_def split: prod.splits list.splits)
qed

lemma sendProxyHeader_events:
  "sendProxyHeader env c ca oa = (h, hev) \<Longrightarrow>
     replayed hev = [] \<and> (hev = [] \<or> (\<exists>hdr. hev = [HeaderWriteTo hdr c]))"
  by (auto simp: sendProxyHeader_def Let_def split: if_splits prod.splits list.splits)

lemma replay_not_blocked: "replay env tls i cmds c rd wr = (r, ev) \<Longrightarrow> r \<noteq> Blocked"
  by (induction cmds arbitrary: i c rd wr r ev)
     (auto simp: Let_def split: if_splits prod.splits list.splits)

lemma sendTLSCommand_result:
  assumes "sendTLSCommand env tls prev c rd wr s = (r, s', ev)"
  shows "(r = Returned None \<longrightarrow>
           (\<exists>c' rd' wr'. replay env tls 0 prev c rd wr = (Returned (Inr (c', rd', wr')), ev) \<and>
              s' = s\<lparr>origin := c', originReader := rd', originWriter := wr'\<rparr>)) \<and>
         (r \<noteq> Returned None \<longrightarrow> s' = s) \<and>
         (\<exists>x. replay env tls 0 prev c rd wr = (x, ev)) \<and> r \<noteq> Blocked"
  using assms replay_not_blocked [of env tls 0 prev c rd wr]
  by (auto simp: sendTLSCommand_def split: prod.splits outcome.splits sum.splits)

subsection \<open>The paths of switchOrigin\<close>

lemma sendProxyHeader_not_blocked: "sendProxyHeader env c ca oa = (h, hev) \<Longrightarrow> h \<noteq> Blocked"
  by (auto simp: sendProxyHeader_def Let_def split: if_splits prod.splits list.splits)

lemma switchOrigin_dial_cases [consumes 1, case_names DialError HeaderFail WelcomeError ReplayError ReplayPanic Success]:
  assumes run: "switchOrigin_dial env ca oa tls prev s = (r, s', ev)"
  obtains
    (DialError) n e where
      "netDial env oa = (n, Some e)" "r = Returned (Some e)" "s' = s\<lparr>stop := False\<rparr>"
      "ev = [Dial oa]"
  | (HeaderFail) n hev where
      "netDial env oa = (n, None)" "proxyProtocol s"
      "sendProxyHeader env (TCPConn n) ca oa = (r, hev)" "r \<noteq> Returned None" "s' = s"
      "ev = Dial oa # hev"
  | (WelcomeError) n hev str e where
      "netDial env oa = (n, None)"
      "(if proxyProtocol s then sendProxyHeader env (TCPConn n) ca oa else (Returned None, []))
         = (Returned None, hev)"
      "welcomeRead env = (str, Some e)" "r = Returned (Some e)" "s' = s"
      "ev = Dial oa # hev @ [ReadString (NewReader (TCPConn n))]"
  | (ReplayError) n hev str tev e where
      "netDial env oa = (n, None)"
      "(if proxyProtocol s then sendProxyHeader env (TCPConn n) ca oa else (Returned None, []))
         = (Returned None, hev)"
      "welcomeRead env = (str, None)"
      "sendTLSCommand env tls prev (TCPConn n) (NewReader (TCPConn n)) (NewWriter (TCPConn n)) s
         = (Returned (Some e), s, tev)"
      "r = Returned (Some e)" "s' = s\<lparr>stop := False\<rparr>"
      "ev = Dial oa # hev @ [ReadString (NewReader (TCPConn n))] @ tev @ [ConnClose (TCPConn n)]"
  | (ReplayPanic) n hev str tev where
      "netDial env oa = (n, None)"
      "(if proxyProtocol s then sendProxyHeader env (TCPConn n) ca oa else (Returned None, []))
         = (Returned None, hev)"
      "welcomeRead env = (str, None)"
      "sendTLSCommand env tls prev (TCPConn n) (NewReader (TCPConn n)) (NewWriter (TCPConn n)) s
         = (Panicked, s, tev)"
      "r = Panicked" "s' = s"
      "ev = Dial oa # hev @ [ReadString (NewReader (TCPConn n))] @ tev"
  | (Success) n hev str s0 tev where
      "netDial env oa = (n, None)"
      "(if proxyProtocol s then sendProxyHeader env (TCPConn n) ca oa else (Returned None, []))
         = (Returned None, hev)"
      "welcomeRead env = (str, None)"
      "sendTLSCommand env tls prev (TCPConn n) (NewReader (TCPConn n)) (NewWriter (TCPConn n)) s
         = (Returned None, s0, tev)"
      "r = Returned None" "s' = s0\<lparr>stop := False\<rparr>"
      "ev = Dial oa # hev @ [ReadString (NewReader (TCPConn n))] @ tev @ [ConnClose (origin s)]"
proof -
  obtain n derr where d: "netDial env oa = (n, derr)" by fastforce
  show thesis
  proof (cases derr)
    case (Some e)
    with run d show thesis by (intro DialError [of n e]) (auto simp: switchOrigin_dial_def)
  next
    case None
    let ?c = "TCPConn n"
    let ?h = "if proxyProtocol s then sendProxyHeader env ?c ca oa else (Returned None, [])"
    obtain h hev where h: "?h = (h, hev)" by fastforce
    have nb: "h \<noteq> Blocked"
      using h sendProxyHeader_not_blocked by (auto split: if_splits)
    show thesis
    proof (cases "h = Returned None")
      case False
      then have pp: "proxyProtocol s" using h by (auto split: if_splits)
      have "r = h \<and> s' = s \<and> ev = Dial oa # hev"
        using run d None h False nb
        by (cases h) (auto simp: switchOrigin_dial_def Let_def split: option.splits)
      with pp h False d None show thesis by (intro HeaderFail [of n hev]) auto
    next
      case True
      note hok = h [unfolded True]
      obtain str rerr where w: "welcomeRead env = (str, rerr)" by fastforce
      show thesis
      proof (cases rerr)
        case (Some e)
        have "r = Returned (Some e) \<and> s' = s \<and> ev = Dial oa # hev @ [ReadString (NewReader ?c)]"
          using run d None hok w Some by (simp add: switchOrigin_dial_def Let_def)
        with d None hok w Some show thesis by (intro WelcomeError [of n hev str e]) auto
      next
        case wnone: None
        obtain r0 s0 tev where t:
          "sendTLSCommand env tls prev ?c (NewReader ?c) (NewWriter ?c) s = (r0, s0, tev)"
          using prod_cases3 by blast
        from sendTLSCommand_result [OF t] have t0: "r0 \<noteq> Returned None \<longrightarrow> s0 = s" "r0 \<noteq> Blocked"
          by auto
        show thesis
        proof (cases r0)
          case (Returned x)
          show thesis
          proof (cases x)
            case xn: None
            have "r = Returned None \<and> s' = s0\<lparr>stop := False\<rparr> \<and>
                  ev = Dial oa # hev @ [ReadString (NewReader ?c)] @ tev @ [ConnClose (origin s)]"
              using run d None hok w wnone t Returned xn
              by (simp add: switchOrigin_dial_def Let_def)
            with d None hok w wnone t Returned xn show thesis
              by (intro Success [of n hev str s0 tev]) auto
          next
            case (Some e)
            have "r = Returned (Some e) \<and> s' = s\<lparr>stop := False\<rparr> \<and>
                  ev = Dial oa # hev @ [ReadString (NewReader ?c)] @ tev @ [ConnClose ?c]"
              using run d None hok w wnone t Returned Some t0
              by (simp add: switchOrigin_dial_def Let_def)
            with d None hok w wnone t Returned Some t0 show thesis
              by (intro ReplayError [of n hev str e tev]) auto
          qed
        next
          case Panicked
          have "r = Panicked \<and> s' = s \<and> ev = Dial oa # hev @ [ReadString (NewReader ?c)] @ tev"
            using run d None hok w wnone t Panicked t0
            by (simp add: switchOrigin_dial_def Let_def)
          with d None hok w wnone t Panicked t0 show thesis
            by (intro ReplayPanic [of n hev str tev]) auto
        next
          case Blocked
          with t0 show thesis by simp
        qed
      qed
    qed
  qed
qed

lemma switchOrigin_stop_unfold:
  assumes "switchOrigin_stop env ca oa tls prev s = (r, s', ev)"
  shows "(\<not> pumpSelecting env \<and> r = Blocked \<and> s' = s \<and> ev = []) \<or>
         (pumpSelecting env \<and>
          (\<exists>s2 ev'. switchOrigin_dial env ca oa tls prev (s\<lparr>stop := True\<rparr>) = (r, s2, ev') \<and>
                 s' = (if flagAfterClear env then s2\<lparr>stop := True\<rparr> else s2) \<and>
                 ev = (if closeAfterInstall env \<and> r = Returned None
                       then StopSend # ev' @ [ConnClose (origin s2)]
                       else StopSend # ConnClose (origin s) # ev')))"
proof (cases "pumpSelecting env")
  case False
  with assms show ?thesis by (simp add: switchOrigin_stop_def)
next
  case True
  obtain r0 s2 ev' where d: "switchOrigin_dial env ca oa tls prev (s\<lparr>stop := True\<rparr>) = (r0, s2, ev')"
    using prod_cases3 by blast
  with assms True have "r = r0" "s' = (if flagAfterClear env then s2\<lparr>stop := True\<rparr> else s2)"
    "ev = (if closeAfterInstall env \<and> r0 = Returned None
           then StopSend # ev' @ [ConnClose (origin s2)]
           else StopSend # ConnClose (origin s) # ev')"
    by (auto simp: switchOrigin_stop_def Let_def split: if_splits)
  with True d show ?thesis by simp
qed

lemma switchOrigin_unfold:
  assumes "switchOrigin env ca oa tls prev s = (r, s', ev)"
  shows "(passThrough s \<and> (\<exists>e. suspend (semAt env) s = (Some e, s') \<and> r = Returned (Some e) \<and> ev = [])) \<or>
         (passThrough s \<and>
          (\<exists>s1 s2. suspend (semAt env) s = (None, s1) \<and>
             switchOrigin_stop env ca oa tls prev s1 = (r, s2, ev) \<and>
             s' = (if r = Blocked then s2 else unsuspend s2))) \<or>
         (\<not> passThrough s \<and> switchOrigin_stop env ca oa tls prev s = (r, s', ev))"
  using assms
  by (auto simp: switchOrigin_def split: if_splits prod.splits option.splits outcome.splits)

lemma suspend_loop_frame_ex:
  "suspend_loop gate cnt s = (e, s1) \<Longrightarrow>
     \<exists>g. s1 = s\<lparr>sem := g, passThrough := (if e = None then False else passThrough s)\<rparr>"
proof (induction gate cnt s arbitrary: e s1 rule: suspend_loop.induct)
  case (1 gate cnt s)
  show ?case
  proof (cases "int cnt > timeout s")
    case True
    with "1.prems" have "e = Some errSemaphore" "s1 = s"
      by (subst (asm) suspend_loop.simps, simp)+
    then show ?thesis by (intro exI [of _ "sem s"]) simp
  next
    case False
    show ?thesis
    proof (cases "semFree (s\<lparr>sem := gate cnt\<rparr>)")
      case True
      with False "1.prems" have "e = None" "s1 = s\<lparr>sem := gate cnt, passThrough := False\<rparr>"
        by (subst (asm) suspend_loop.simps, simp)+
      then show ?thesis by (intro exI [of _ "gate cnt"]) simp
    next
      case nf: False
      with False "1.prems" have "suspend_loop gate (Suc cnt) (s\<lparr>sem := gate cnt\<rparr>) = (e, s1)"
        by (subst (asm) suspend_loop.simps) auto
      from "1.IH" [OF False nf this] obtain g where
        "s1 = s\<lparr>sem := gate cnt\<rparr>\<lparr>sem := g, passThrough :=
                 (if e = None then False else passThrough (s\<lparr>sem := gate cnt\<rparr>))\<rparr>"
        by blast
      then show ?thesis by (intro exI [of _ g]) simp
    qed
  qed
qed

lemma suspend_frame_ex:
  assumes "suspend gate s = (e, s1)"
  shows "\<exists>g. s1 = s\<lparr>sem := g, passThrough := (if e = None then False else passThrough s)\<rparr>"
  using assms unfolding suspend_def by (rule suspend_loop_frame_ex)

lemma switchOrigin_dial_keeps:
  assumes "switchOrigin_dial env ca oa tls prev s = (r, s', ev)"
  shows "r \<noteq> Blocked \<and>
         (if r = Returned None
          then \<exists>c. s' = s\<lparr>origin := c, originReader := NewReader c, originWriter := NewWriter c,
                           stop := False\<rparr> \<and>
                   c = wrapAfter (mapUpper env) tls (TCPConn (fst (netDial env oa))) prev \<and>
                   replayed ev = zip (replayConns (mapUpper env) tls (TCPConn (fst (netDial env oa))) prev) prev \<and>
                   ev \<noteq> [] \<and> last ev = ConnClose (origin s)
          else \<exists>st. s' = s\<lparr>stop := st\<rparr>)"
  using assms
proof (cases rule: switchOrigin_dial_cases)
  case (DialError n e)
  then show ?thesis by auto
next
  case (HeaderFail n hev)
  have "\<exists>st. s = s\<lparr>stop := st\<rparr>" by (intro exI [of _ "stop s"]) simp
  with HeaderFail show ?thesis using sendProxyHeader_not_blocked by auto
next
  case (WelcomeError n hev str e)
  have "\<exists>st. s = s\<lparr>stop := st\<rparr>" by (intro exI [of _ "stop s"]) simp
  with WelcomeError show ?thesis by auto
next
  case (ReplayError n hev str tev e)
  then show ?thesis by auto
next
  case (ReplayPanic n hev str tev)
  have "\<exists>st. s = s\<lparr>stop := st\<rparr>" by (intro exI [of _ "stop s"]) simp
  with ReplayPanic show ?thesis by auto
next
  case (Success n hev str s0 tev)
  let ?c = "TCPConn n"
  from sendTLSCommand_result [OF Success(4)] obtain c' rd' wr' where
    r: "replay env tls 0 prev ?c (NewReader ?c) (NewWriter ?c) = (Returned (Inr (c', rd', wr')), tev)"
    and s0: "s0 = s\<lparr>origin := c', originReader := rd', originWriter := wr'\<rparr>"
    by auto
  from replay_success [OF r] have
    rs: "replayed tev = zip (replayConns (mapUpper env) tls ?c prev) prev" "c' = wrapAfter (mapUpper env) tls ?c prev"
      "rd' = NewReader c'" "wr' = NewWriter c'"
    by auto
  have "replayed hev = []"
    using Success(2) sendProxyHeader_events by (auto split: if_splits)
  with Success rs s0 show ?thesis by (simp add: replayed_append)
qed

lemma length_replayConns: "length (replayConns up tls c cmds) = length cmds"
  by (induction cmds arbitrary: c) auto

lemma switchOrigin_stop_keeps:
  assumes "switchOrigin_stop env ca oa tls prev s = (r, s', ev)"
  shows "(if r = Returned None
          then \<exists>c. s' = s\<lparr>origin := c, originReader := NewReader c, originWriter := NewWriter c,
                           stop := flagAfterClear env\<rparr> \<and>
                   c = wrapAfter (mapUpper env) tls (TCPConn (fst (netDial env oa))) prev \<and>
                   replayed ev = zip (replayConns (mapUpper env) tls (TCPConn (fst (netDial env oa))) prev) prev \<and>
                   ConnClose (origin s) \<in> set ev \<and>
                   (closeAfterInstall env \<longrightarrow> last ev = ConnClose c)
          else \<exists>st. s' = s\<lparr>stop := st\<rparr>)"
proof -
  from switchOrigin_stop_unfold [OF assms] show ?thesis
  proof (elim disjE conjE exE)
    assume "r = Blocked" "s' = s" "ev = []"
    moreover have "\<exists>st. s = s\<lparr>stop := st\<rparr>" by (intro exI [of _ "stop s"]) simp
    ultimately show ?thesis by auto
  next
    fix s2 ev'
    assume d: "switchOrigin_dial env ca oa tls prev (s\<lparr>stop := True\<rparr>) = (r, s2, ev')"
      and s': "s' = (if flagAfterClear env then s2\<lparr>stop := True\<rparr> else s2)"
      and ev: "ev = (if closeAfterInstall env \<and> r = Returned None
                       then StopSend # ev' @ [ConnClose (origin s2)]
                       else StopSend # ConnClose (origin s) # ev')"
    show ?thesis
    proof (cases "r = Returned None")
      case True
      with switchOrigin_dial_keeps [OF d] obtain c where
        c: "s2 = s\<lparr>origin := c, originReader := NewReader c, originWriter := NewWriter c,
                    stop := False\<rparr>"
          "c = wrapAfter (mapUpper env) tls (TCPConn (fst (netDial env oa))) prev"
          "replayed ev' = zip (replayConns (mapUpper env) tls (TCPConn (fst (netDial env oa))) prev) prev"
          "ev' \<noteq> []" "last ev' = ConnClose (origin s)"
        by auto
      from c(4,5) have mem: "ConnClose (origin s) \<in> set ev'" using last_in_set by metis
      have st: "s' = s\<lparr>origin := c, originReader := NewReader c, originWriter := NewWriter c,
                       stop := flagAfterClear env\<rparr>"
        using s' c(1) by simp
      have "replayed ev = replayed ev'" using ev by (simp add: replayed_append)
      moreover have "ConnClose (origin s) \<in> set ev" using ev mem by simp
      moreover have "closeAfterInstall env \<longrightarrow> last ev = ConnClose c" using ev True c(1) by simp
      ultimately show ?thesis using True st c(2,3) by simp
    next
      case False
      with switchOrigin_dial_keeps [OF d] obtain st where "s2 = s\<lparr>stop := st\<rparr>" by auto
      then have "s' = s\<lparr>stop := (if flagAfterClear env then True else st)\<rparr>" using s' by simp
      then have "\<exists>st. s' = s\<lparr>stop := st\<rparr>" by blast
      with False show ?thesis by simp
    qed
  qed
qed

text \<open>
  What every call of \<open>switchOrigin\<close> leaves behind. After a switch that returns \<^verbatim>\<open>nil\<close>
  the new connection is installed, every line has been replayed once, in order, and the
  old socket has been closed; the stop flag is set when the pump stored it last. Every
  other call leaves the old origin installed.
\<close>

lemma switchOrigin_result:
  assumes "switchOrigin env ca oa tls prev s = (r, s', ev)"
  shows "(r = Returned None \<longrightarrow>
            origin s' = wrapAfter (mapUpper env) tls (TCPConn (fst (netDial env oa))) prev \<and>
            originReader s' = NewReader (origin s') \<and>
            originWriter s' = NewWriter (origin s') \<and>
            map snd (replayed ev) = prev \<and>
            map fst (replayed ev) = replayConns (mapUpper env) tls (TCPConn (fst (netDial env oa))) prev \<and>
            stop s' = flagAfterClear env \<and> ConnClose (origin s) \<in> set ev \<and>
            (closeAfterInstall env \<longrightarrow> last ev = ConnClose (origin s'))) \<and>
         (r \<noteq> Returned None \<longrightarrow>
            origin s' = origin s \<and> originReader s' = originReader s \<and>
            originWriter s' = originWriter s) \<and>
         (r \<noteq> Blocked \<longrightarrow>
            passThrough s' = passThrough s \<and> timeout s' = timeout s \<and>
            clientReader s' = clientReader s \<and> clientWriter s' = clientWriter s \<and>
            proxyProtocol s' = proxyProtocol s \<and> secureCommands s' = secureCommands s)"
proof -
  from switchOrigin_unfold [OF assms] show ?thesis
  proof (elim disjE conjE exE)
    fix e assume su: "suspend (semAt env) s = (Some e, s')" and r: "r = Returned (Some e)" "ev = []"
    from suspend_frame_ex [OF su] obtain g where "s' = s\<lparr>sem := g, passThrough := passThrough s\<rparr>"
      by auto
    with r show ?thesis by simp
  next
    fix s1 s2
    assume pt: "passThrough s" and su: "suspend (semAt env) s = (None, s1)"
      and st: "switchOrigin_stop env ca oa tls prev s1 = (r, s2, ev)"
      and s': "s' = (if r = Blocked then s2 else unsuspend s2)"
    from suspend_frame_ex [OF su] obtain g where s1: "s1 = s\<lparr>sem := g, passThrough := False\<rparr>"
      by auto
    show ?thesis
    proof (cases "r = Returned None")
      case True
      with switchOrigin_stop_keeps [OF st] obtain c where
        "s2 = s1\<lparr>origin := c, originReader := NewReader c, originWriter := NewWriter c,
                           stop := flagAfterClear env\<rparr>"
        "c = wrapAfter (mapUpper env) tls (TCPConn (fst (netDial env oa))) prev"
        "replayed ev = zip (replayConns (mapUpper env) tls (TCPConn (fst (netDial env oa))) prev) prev"
        "ConnClose (origin s1) \<in> set ev"
        "closeAfterInstall env \<longrightarrow> last ev = ConnClose c"
        by auto
      with True s' s1 pt show ?thesis by (simp add: unsuspend_def length_replayConns)
    next
      case False
      with switchOrigin_stop_keeps [OF st] obtain st' where "s2 = s1\<lparr>stop := st'\<rparr>"
        by auto
      with False s' s1 pt show ?thesis by (simp add: unsuspend_def)
    qed
  next
    assume npt: "\<not> passThrough s" and st: "switchOrigin_stop env ca oa tls prev s = (r, s', ev)"
    show ?thesis
    proof (cases "r = Returned None")
      case True
      with switchOrigin_stop_keeps [OF st] obtain c where
        "s' = s\<lparr>origin := c, originReader := NewReader c, originWriter := NewWriter c,
                           stop := flagAfterClear env\<rparr>"
        "c = wrapAfter (mapUpper env) tls (TCPConn (fst (netDial env oa))) prev"
        "replayed ev = zip (replayConns (mapUpper env) tls (TCPConn (fst (netDial env oa))) prev) prev"
        "ConnClose (origin s) \<in> set ev"
        "closeAfterInstall env \<longrightarrow> last ev = ConnClose c"
        by auto
      with True show ?thesis by (simp add: length_replayConns)
    next
      case False
      with switchOrigin_stop_keeps [OF st] obtain st' where "s' = s\<lparr>stop := st'\<rparr>"
        by auto
      with False show ?thesis by simp
    qed
  qed
qed

text \<open>
  A switch that reaches the dial (the gate is free in time when the session is in
  pass-through, a pump takes the stop), in terms of lines 230-264.
\<close>

lemma switchOrigin_reach_dial:
  assumes "\<not> passThrough s \<or> fst (suspend (semAt env) s) = None" and "pumpSelecting env"
  shows "\<exists>g. switchOrigin env ca oa tls prev s =
           (case switchOrigin_dial env ca oa tls prev
                   (if passThrough s then s\<lparr>sem := g, passThrough := False, stop := True\<rparr>
                    else s\<lparr>stop := True\<rparr>) of
              (r, s2, ev) \<Rightarrow>
                (r, (if flagAfterClear env then s2\<lparr>stop := True\<rparr> else s2)
                      \<lparr>passThrough := passThrough s \<or> passThrough s2\<rparr>,
                 if closeAfterInstall env \<and> r = Returned None
                 then StopSend # ev @ [ConnClose (origin s2)]
                 else StopSend # ConnClose (origin s) # ev))"
proof (cases "passThrough s")
  case False
  obtain r s2 ev where d: "switchOrigin_dial env ca oa tls prev (s\<lparr>stop := True\<rparr>) = (r, s2, ev)"
    using prod_cases3 by blast
  from switchOrigin_dial_keeps [OF d] have "passThrough s2 = passThrough s"
    by (auto split: if_splits)
  with False have "(if flagAfterClear env then s2\<lparr>stop := True\<rparr> else s2)
                     \<lparr>passThrough := passThrough s \<or> passThrough s2\<rparr> =
                   (if flagAfterClear env then s2\<lparr>stop := True\<rparr> else s2)"
    by simp
  with False d assms(2) show ?thesis
    by (simp add: switchOrigin_def switchOrigin_stop_def Let_def)
next
  case True
  with assms(1) obtain s1 where su: "suspend (semAt env) s = (None, s1)"
    by (cases "suspend (semAt env) s") auto
  from suspend_frame_ex [OF su] obtain g where s1: "s1 = s\<lparr>sem := g, passThrough := False\<rparr>"
    by auto
  obtain r s2 ev where d: "switchOrigin_dial env ca oa tls prev (s1\<lparr>stop := True\<rparr>) = (r, s2, ev)"
    using prod_cases3 by blast
  from switchOrigin_dial_keeps [OF d] have nb: "r \<noteq> Blocked" by simp
  have "switchOrigin env ca oa tls prev s =
          (r, unsuspend (if flagAfterClear env then s2\<lparr>stop := True\<rparr> else s2),
           if closeAfterInstall env \<and> r = Returned None
           then StopSend # ev @ [ConnClose (origin s2)]
           else StopSend # ConnClose (origin s) # ev)"
    using True su d nb assms(2) s1
    by (cases r) (simp_all add: switchOrigin_def switchOrigin_stop_def Let_def)
  with True d s1 show ?thesis by (intro exI [of _ g]) (simp add: unsuspend_def)
qed

subsection \<open>C4: the replay of an AUTH line\<close>

text \<open>The replay up to an AUTH line whose response is read: the lines before it are
  replayed, and the loop goes on at the AUTH line, on the connection as these lines leave
  it.\<close>

lemma replay_upto:
  assumes "accepted env 0 pre"
  shows "replay env tls 0 (pre @ cmd # post) c (NewReader c) (NewWriter c) =
      (case replay env tls (length pre) (cmd # post) (wrapAfter (mapUpper env) tls c pre)
              (NewReader (wrapAfter (mapUpper env) tls c pre))
              (NewWriter (wrapAfter (mapUpper env) tls c pre)) of
         (r, ev') \<Rightarrow> (r, replayEvents (mapUpper env) tls c (NewReader c) pre @ ev'))"
  using replay_append [OF replay_accepted [OF assms, of tls c], of "cmd # post"] by simp

lemma replay_AUTH_refused:
  assumes "accepted env 0 pre" and "commandOf (mapUpper env) cmd = ''AUTH''"
    and "replayWrite env (length pre) = None" and "replayRead env (length pre) = (str, None)"
    and "codeOf str = CHR ''5'' # cs"
  shows "replay env tls 0 (pre @ cmd # post) c (NewReader c) (NewWriter c) =
      (Returned (Inl errTLSNotSupported),
       replayEvents (mapUpper env) tls c (NewReader c) pre @
       [ConnWrite (wrapAfter (mapUpper env) tls c pre) cmd,
        ReadString (NewReader (wrapAfter (mapUpper env) tls c pre))])"
proof -
  have auth: "ToUpper (mapUpper env) (hd (SplitN (Trim cmd crlf) SP 2)) = ''AUTH''"
    using assms(2) by (simp add: commandOf_def)
  have code: "hd (SplitN (Trim str crlf) SP 2) = CHR ''5'' # cs"
    using assms(5) by (simp add: codeOf_def)
  show ?thesis
    using assms(3,4) auth code by (simp add: replay_upto [OF assms(1)])
qed

lemma replay_AUTH_wrapped:
  assumes "accepted env 0 pre" and "commandOf (mapUpper env) cmd = ''AUTH''"
    and "replayWrite env (length pre) = None" and "replayRead env (length pre) = (str, None)"
    and "codeOf str = c0 # cs" and "c0 \<noteq> CHR ''5''"
  shows "replay env tls 0 (pre @ cmd # post) c (NewReader c) (NewWriter c) =
          (case replay env tls (Suc (length pre)) post
                  (TLSClient (wrapAfter (mapUpper env) tls c pre) (Config True tls tls))
                  (NewReader (TLSClient (wrapAfter (mapUpper env) tls c pre) (Config True tls tls)))
                  (NewWriter (TLSClient (wrapAfter (mapUpper env) tls c pre) (Config True tls tls))) of
             (r, ev') \<Rightarrow>
               (r, replayEvents (mapUpper env) tls c (NewReader c) pre @
                   ConnWrite (wrapAfter (mapUpper env) tls c pre) cmd #
                   ReadString (NewReader (wrapAfter (mapUpper env) tls c pre)) # ev'))"
proof -
  have auth: "ToUpper (mapUpper env) (hd (SplitN (Trim cmd crlf) SP 2)) = ''AUTH''"
    using assms(2) by (simp add: commandOf_def)
  have code: "hd (SplitN (Trim str crlf) SP 2) = c0 # cs"
    using assms(5) by (simp add: codeOf_def)
  show ?thesis
    using assms(3,4,6) auth code
    by (simp add: replay_upto [OF assms(1)] Let_def split: prod.splits)
qed

text \<open>
  Claim C4 does not hold of the code. Let a switch reach the replay (the gate is free in
  time when the session is in pass-through, a pump takes the stop, the dial, the PROXY
  header and the greeting succeed), the new origin accept the lines \<open>pre\<close> that come
  before an AUTH line \<open>cmd\<close>, and the write of \<open>cmd\<close> and the read of its response \<open>str\<close>
  succeed, the code of \<open>str\<close> having a first byte \<open>c0\<close>. The lines \<open>pre\<close> are replayed in
  order, each once. If \<open>c0\<close> is not \<^verbatim>\<open>5\<close>, the lines \<open>post\<close> after \<open>cmd\<close> are replayed on
  \<^verbatim>\<open>tls.Client\<close> of the connection, with certificate verification skipped and the
  recorded version as minimum and maximum version: so far the claim holds. If \<open>c0\<close> is
  \<^verbatim>\<open>5\<close>, \<open>switchOrigin\<close> returns the error after the read of that response and closes
  the new socket, and the old origin is still the installed one; but it is not intact:
  the pump's stop case, which the switch has set off at line 228, closes its socket. (The
  comment of line 253 wants the old origin used after this failure.)
\<close>

theorem switchOrigin_AUTH_response:
  assumes "\<not> passThrough s \<or> fst (suspend (semAt env) s) = None" and "pumpSelecting env"
    and "netDial env oa = (n, None)"
    and "(if proxyProtocol s then sendProxyHeader env (TCPConn n) ca oa else (Returned None, []))
           = (Returned None, hev)"
    and "welcomeRead env = (greeting, None)"
    and "accepted env 0 pre" and "commandOf (mapUpper env) cmd = ''AUTH''"
    and "replayWrite env (length pre) = None" and "replayRead env (length pre) = (str, None)"
    and "codeOf str = c0 # cs"
  shows
    "map snd (replayed (replayEvents (mapUpper env) tls (TCPConn n) (NewReader (TCPConn n)) pre)) = pre \<and>
     (c0 = CHR ''5'' \<longrightarrow>
        (\<exists>s'. switchOrigin env ca oa tls (pre @ cmd # post) s =
           (Returned (Some errTLSNotSupported), s',
            StopSend # ConnClose (origin s) # Dial oa # hev @
            ReadString (NewReader (TCPConn n)) #
            replayEvents (mapUpper env) tls (TCPConn n) (NewReader (TCPConn n)) pre @
            [ConnWrite (wrapAfter (mapUpper env) tls (TCPConn n) pre) cmd,
             ReadString (NewReader (wrapAfter (mapUpper env) tls (TCPConn n) pre)),
             ConnClose (TCPConn n)]) \<and>
           origin s' = origin s \<and> originReader s' = originReader s \<and>
           originWriter s' = originWriter s \<and>
           stop s' = flagAfterClear env \<and> passThrough s' = passThrough s)) \<and>
     (c0 \<noteq> CHR ''5'' \<longrightarrow>
        replay env tls 0 (pre @ cmd # post) (TCPConn n) (NewReader (TCPConn n))
          (NewWriter (TCPConn n)) =
          (case replay env tls (Suc (length pre)) post
                  (TLSClient (wrapAfter (mapUpper env) tls (TCPConn n) pre) (Config True tls tls))
                  (NewReader (TLSClient (wrapAfter (mapUpper env) tls (TCPConn n) pre)
                                (Config True tls tls)))
                  (NewWriter (TLSClient (wrapAfter (mapUpper env) tls (TCPConn n) pre)
                                (Config True tls tls))) of
             (r, ev') \<Rightarrow>
               (r, replayEvents (mapUpper env) tls (TCPConn n) (NewReader (TCPConn n)) pre @
                   ConnWrite (wrapAfter (mapUpper env) tls (TCPConn n) pre) cmd #
                   ReadString (NewReader (wrapAfter (mapUpper env) tls (TCPConn n) pre)) # ev')))"
proof (intro conjI impI)
  show "map snd (replayed (replayEvents (mapUpper env) tls (TCPConn n) (NewReader (TCPConn n)) pre)) = pre"
    by (rule replayed_replayEvents)
next
  assume c5: "c0 = CHR ''5''"
  let ?c = "TCPConn n"
  let ?tev = "replayEvents (mapUpper env) tls ?c (NewReader ?c) pre @
       [ConnWrite (wrapAfter (mapUpper env) tls ?c pre) cmd,
        ReadString (NewReader (wrapAfter (mapUpper env) tls ?c pre))]"
  have five: "replay env tls 0 (pre @ cmd # post) ?c (NewReader ?c) (NewWriter ?c) =
      (Returned (Inl errTLSNotSupported), ?tev)"
    using assms(6-10) c5 by (intro replay_AUTH_refused) auto
  have d: "switchOrigin_dial env ca oa tls (pre @ cmd # post) s1 =
      (Returned (Some errTLSNotSupported), s1\<lparr>stop := False\<rparr>,
       Dial oa # hev @ [ReadString (NewReader ?c)] @ ?tev @ [ConnClose ?c])"
    if "proxyProtocol s1 = proxyProtocol s" for s1
    using assms(3,4,5) that five by (simp add: switchOrigin_dial_def Let_def sendTLSCommand_def)
  from switchOrigin_reach_dial [OF assms(1,2), of ca oa tls "pre @ cmd # post"] obtain g where
    sw: "switchOrigin env ca oa tls (pre @ cmd # post) s =
           (case switchOrigin_dial env ca oa tls (pre @ cmd # post)
                   (if passThrough s then s\<lparr>sem := g, passThrough := False, stop := True\<rparr>
                    else s\<lparr>stop := True\<rparr>) of
              (r, s2, ev) \<Rightarrow>
                (r, (if flagAfterClear env then s2\<lparr>stop := True\<rparr> else s2)
                      \<lparr>passThrough := passThrough s \<or> passThrough s2\<rparr>,
                 if closeAfterInstall env \<and> r = Returned None
                 then StopSend # ev @ [ConnClose (origin s2)]
                 else StopSend # ConnClose (origin s) # ev))"
    by blast
  show "\<exists>s'. switchOrigin env ca oa tls (pre @ cmd # post) s =
           (Returned (Some errTLSNotSupported), s',
            StopSend # ConnClose (origin s) # Dial oa # hev @
            ReadString (NewReader ?c) #
            replayEvents (mapUpper env) tls ?c (NewReader ?c) pre @
            [ConnWrite (wrapAfter (mapUpper env) tls ?c pre) cmd,
             ReadString (NewReader (wrapAfter (mapUpper env) tls ?c pre)),
             ConnClose ?c]) \<and>
           origin s' = origin s \<and> originReader s' = originReader s \<and>
           originWriter s' = originWriter s \<and>
           stop s' = flagAfterClear env \<and> passThrough s' = passThrough s"
  proof (cases "passThrough s")
    case True
    with sw d [of "s\<lparr>sem := g, passThrough := False, stop := True\<rparr>"]
    show ?thesis by simp
  next
    case False
    with sw d [of "s\<lparr>stop := True\<rparr>"]
    show ?thesis by simp
  qed
next
  assume "c0 \<noteq> CHR ''5''"
  with assms(6-10) show
    "replay env tls 0 (pre @ cmd # post) (TCPConn n) (NewReader (TCPConn n))
          (NewWriter (TCPConn n)) =
          (case replay env tls (Suc (length pre)) post
                  (TLSClient (wrapAfter (mapUpper env) tls (TCPConn n) pre) (Config True tls tls))
                  (NewReader (TLSClient (wrapAfter (mapUpper env) tls (TCPConn n) pre)
                                (Config True tls tls)))
                  (NewWriter (TLSClient (wrapAfter (mapUpper env) tls (TCPConn n) pre)
                                (Config True tls tls))) of
             (r, ev') \<Rightarrow>
               (r, replayEvents (mapUpper env) tls (TCPConn n) (NewReader (TCPConn n)) pre @
                   ConnWrite (wrapAfter (mapUpper env) tls (TCPConn n) pre) cmd #
                   ReadString (NewReader (wrapAfter (mapUpper env) tls (TCPConn n) pre)) # ev'))"
    by (intro replay_AUTH_wrapped) auto
qed

text \<open>
  A switch of the example session to a new origin that greets and answers 534 to
  \<^verbatim>\<open>AUTH TLS\<close>: the error is returned, the old origin (socket 1) stays installed, and
  its socket has been closed; and the replay on an origin that answers 234, which goes on
  with \<^verbatim>\<open>PBSZ 0\<close> on the TLS client.
\<close>

theorem switchOrigin_AUTH_response_witness:
  "(\<exists>s'. switchOrigin (exampleEnv\<lparr>replayRead := (\<lambda>i. (''534 TLS not available'' @ crlf, None))\<rparr>)
            ''192.0.2.7:50000'' ''ftp.example:21'' exampleTLS examplePrevious exampleSession =
          (Returned (Some errTLSNotSupported), s',
           [StopSend, ConnClose (TCPConn 1), Dial ''ftp.example:21'',
            HeaderWriteTo
              \<lparr>Version = 1, Command = PROXY, TransportProtocol = TCPv4,
               SourceAddress = Some (v4InV6 [192, 0, 2, 7]),
               DestinationAddress = Some (v4InV6 [10, 0, 0, 2]),
               SourcePort = 50000, DestinationPort = 21\<rparr> (TCPConn 2),
            ReadString (NewReader (TCPConn 2)),
            ConnWrite (TCPConn 2) (''AUTH TLS'' @ crlf), ReadString (NewReader (TCPConn 2)),
            ConnClose (TCPConn 2)]) \<and>
          origin s' = TCPConn 1 \<and> originReader s' = NewReader (TCPConn 1) \<and>
          originWriter s' = NewWriter (TCPConn 1) \<and> \<not> stop s' \<and> passThrough s') \<and>
   replay exampleEnv exampleTLS 0 examplePrevious (TCPConn 2) (NewReader (TCPConn 2))
     (NewWriter (TCPConn 2)) =
     (case replay exampleEnv exampleTLS 1 [''PBSZ 0'' @ crlf, ''PROT P'' @ crlf]
             (TLSClient (TCPConn 2) (Config True exampleTLS exampleTLS))
             (NewReader (TLSClient (TCPConn 2) (Config True exampleTLS exampleTLS)))
             (NewWriter (TLSClient (TCPConn 2) (Config True exampleTLS exampleTLS))) of
        (r, ev') \<Rightarrow>
          (r, ConnWrite (TCPConn 2) (''AUTH TLS'' @ crlf) # ReadString (NewReader (TCPConn 2)) # ev'))"
proof -
  let ?env = "exampleEnv\<lparr>replayRead := (\<lambda>i. (''534 TLS not available'' @ crlf, None))\<rparr>"
  let ?hdr = "\<lparr>Version = 1, Command = PROXY, TransportProtocol = TCPv4,
               SourceAddress = Some (v4InV6 [192, 0, 2, 7]),
               DestinationAddress = Some (v4InV6 [10, 0, 0, 2]),
               SourcePort = 50000, DestinationPort = 21\<rparr>"
  have su: "\<not> passThrough exampleSession \<or> fst (suspend (semAt ?env) exampleSession) = None"
    "\<not> passThrough exampleSession \<or> fst (suspend (semAt exampleEnv) exampleSession) = None"
    by code_simp+
  have ps: "pumpSelecting ?env" "pumpSelecting exampleEnv" by (simp_all add: exampleEnv_def)
  have d: "netDial ?env ''ftp.example:21'' = (2, None)"
    "netDial exampleEnv ''ftp.example:21'' = (2, None)"
    by (simp_all add: exampleEnv_def)
  have h: "(if proxyProtocol exampleSession
            then sendProxyHeader ?env (TCPConn 2) ''192.0.2.7:50000'' ''ftp.example:21''
            else (Returned None, [])) = (Returned None, [HeaderWriteTo ?hdr (TCPConn 2)])"
    "(if proxyProtocol exampleSession
            then sendProxyHeader exampleEnv (TCPConn 2) ''192.0.2.7:50000'' ''ftp.example:21''
            else (Returned None, [])) = (Returned None, [HeaderWriteTo ?hdr (TCPConn 2)])"
    by code_simp+
  have w: "welcomeRead ?env = (''220 ready'' @ crlf, None)"
    "welcomeRead exampleEnv = (''220 ready'' @ crlf, None)"
    by (simp_all add: exampleEnv_def)
  have auth: "commandOf (mapUpper ?env) (''AUTH TLS'' @ crlf) = ''AUTH''"
    "commandOf (mapUpper exampleEnv) (''AUTH TLS'' @ crlf) = ''AUTH''"
    by code_simp+
  have c5: "codeOf (''534 TLS not available'' @ crlf) = CHR ''5'' # ''34''" by code_simp
  have c2: "codeOf (''234 AUTH TLS OK'' @ crlf) = CHR ''2'' # ''34''" by code_simp
  have prev: "examplePrevious = [] @ (''AUTH TLS'' @ crlf) # [''PBSZ 0'' @ crlf, ''PROT P'' @ crlf]"
    by (simp add: examplePrevious_def)
  have a: "accepted ?env 0 []" "accepted exampleEnv 0 []" by simp_all
  have rw: "replayWrite ?env (length ([]::string list)) = None"
    "replayWrite exampleEnv (length ([]::string list)) = None"
    by (simp_all add: exampleEnv_def)
  have r5: "replayRead ?env (length ([]::string list)) = (''534 TLS not available'' @ crlf, None)"
    by simp
  have r2: "replayRead exampleEnv (length ([]::string list)) = (''234 AUTH TLS OK'' @ crlf, None)"
    by (simp add: exampleEnv_def)
  have fl: "flagAfterClear exampleEnv = False" by (simp add: exampleEnv_def)
  have ex: "origin exampleSession = TCPConn 1" "originReader exampleSession = NewReader (TCPConn 1)"
    "originWriter exampleSession = NewWriter (TCPConn 1)" "passThrough exampleSession"
    by (simp_all add: exampleSession_def)
  from switchOrigin_AUTH_response [OF su(1) ps(1) d(1) h(1) w(1) a(1) auth(1) rw(1) r5 c5,
      of exampleTLS "[''PBSZ 0'' @ crlf, ''PROT P'' @ crlf]"]
  have st1: "\<exists>s'. switchOrigin ?env ''192.0.2.7:50000'' ''ftp.example:21'' exampleTLS
                   examplePrevious exampleSession =
          (Returned (Some errTLSNotSupported), s',
           [StopSend, ConnClose (TCPConn 1), Dial ''ftp.example:21'',
            HeaderWriteTo ?hdr (TCPConn 2),
            ReadString (NewReader (TCPConn 2)),
            ConnWrite (TCPConn 2) (''AUTH TLS'' @ crlf), ReadString (NewReader (TCPConn 2)),
            ConnClose (TCPConn 2)]) \<and>
          origin s' = TCPConn 1 \<and> originReader s' = NewReader (TCPConn 1) \<and>
          originWriter s' = NewWriter (TCPConn 1) \<and> \<not> stop s' \<and> passThrough s'"
    unfolding prev by (simp add: fl ex)
  from switchOrigin_AUTH_response [OF su(2) ps(2) d(2) h(2) w(2) a(2) auth(2) rw(2) r2 c2,
      of exampleTLS "[''PBSZ 0'' @ crlf, ''PROT P'' @ crlf]"]
  have st2: "replay exampleEnv exampleTLS 0 examplePrevious (TCPConn 2) (NewReader (TCPConn 2))
     (NewWriter (TCPConn 2)) =
     (case replay exampleEnv exampleTLS 1 [''PBSZ 0'' @ crlf, ''PROT P'' @ crlf]
             (TLSClient (TCPConn 2) (Config True exampleTLS exampleTLS))
             (NewReader (TLSClient (TCPConn 2) (Config True exampleTLS exampleTLS)))
             (NewWriter (TLSClient (TCPConn 2) (Config True exampleTLS exampleTLS))) of
        (r, ev') \<Rightarrow>
          (r, ConnWrite (TCPConn 2) (''AUTH TLS'' @ crlf) # ReadString (NewReader (TCPConn 2)) # ev'))"
    unfolding prev by simp
  from st1 st2 show ?thesis by blast
qed

subsection \<open>C6: the error of the DNS lookup is never returned\<close>

lemma Split_no_sep: "sep \<notin> set b \<Longrightarrow> Split b sep = [b]"
  by (induction b) auto






text \<open>
  Claim C6. When the lookup of the destination host fails (\<^verbatim>\<open>net.LookupIP\<close> then
  returns no address), \<open>sendProxyHeader\<close> does not return the error of the lookup: the
  guard of line 157 is false, and the call panics at \<^verbatim>\<open>hostIP[0]\<close> (or before, at
  \<^verbatim>\<open>sourceAddr[1]\<close> or \<^verbatim>\<open>destinationAddr[1]\<close>). For every input, a value that
  \<open>sendProxyHeader\<close> returns is the error of \<^verbatim>\<open>WriteTo\<close> (line 172), after a lookup
  that gave an address: line 158 is never reached.
\<close>

theorem sendProxyHeader_lookup_error:
  "(netLookupIP env (Split originAddr (CHR '':'') ! 0) = ([], Some e) \<longrightarrow>
      sendProxyHeader env conn clientAddr originAddr = (Panicked, [])) \<and>
   (sendProxyHeader env conn clientAddr originAddr = (Returned err, ev) \<longrightarrow>
      (\<exists>hdr ip ips. fst (netLookupIP env (Split originAddr (CHR '':'') ! 0)) = ip # ips \<and>
         ev = [HeaderWriteTo hdr conn] \<and> err = headerWriteTo env hdr conn))"
  by (auto simp: sendProxyHeader_def Let_def split: if_splits prod.splits list.splits)

theorem sendProxyHeader_lookup_error_witness:
  "sendProxyHeader (exampleEnv\<lparr>netLookupIP := (\<lambda>h. ([], Some (Error ''no such host'')))\<rparr>)
     (TCPConn 2) ''192.0.2.7:50000'' ''ftp.example:21'' = (Panicked, [])"
  using sendProxyHeader_lookup_error
    [of "exampleEnv\<lparr>netLookupIP := (\<lambda>h. ([], Some (Error ''no such host'')))\<rparr>"
        "''ftp.example:21''" "Error ''no such host''" "TCPConn 2" "''192.0.2.7:50000''"]
  by simp

subsection \<open>C7: the PROXY protocol header\<close>


text \<open>What \<^verbatim>\<open>strconv.Atoi\<close> makes of a port, of text that is no number, and of digits
  that overflow: the scan stops at the digit that overflows, before the \<^verbatim>\<open>x\<close>.\<close>

lemma Atoi_examples:
  "Atoi ''50000'' = 50000" "Atoi ''db8'' = 0" "Atoi [] = 0" "Atoi ''+'' = 0"
  "Atoi ''-21'' = - 21"
  "Atoi ''9223372036854775808'' = 9223372036854775807"
  "Atoi ''-9223372036854775809'' = - 9223372036854775808"
  "Atoi ''9999999999999999999x'' = 0"
  "Atoi ''99999999999999999999x'' = 9223372036854775807"
  "(word_of_int (Atoi ''99999999999999999999x'') :: 16 word) = 65535"
  by code_simp+




subsection \<open>C1: a failed switch\<close>

text \<open>
  A switch whose dial is refused returns at line 233, after the pump has closed the old
  socket; the stop flag, which line 232 clears, is set again when the pump's line 348
  runs after line 232.
\<close>

lemma switchOrigin_dial_refused:
  assumes "\<not> passThrough s \<or> fst (suspend (semAt env) s) = None" and "pumpSelecting env"
    and "netDial env oa = (n, Some e)"
  shows "\<exists>s'. switchOrigin env ca oa tls prev s =
            (Returned (Some e), s', [StopSend, ConnClose (origin s), Dial oa]) \<and>
          stop s' = flagAfterClear env \<and> origin s' = origin s \<and>
          passThrough s' = passThrough s"
proof -
  have d: "switchOrigin_dial env ca oa tls prev s1 = (Returned (Some e), s1\<lparr>stop := False\<rparr>, [Dial oa])"
    for s1
    using assms(3) by (simp add: switchOrigin_dial_def)
  from switchOrigin_reach_dial [OF assms(1,2), of ca oa tls prev] obtain g where
    sw: "switchOrigin env ca oa tls prev s =
           (case switchOrigin_dial env ca oa tls prev
                   (if passThrough s then s\<lparr>sem := g, passThrough := False, stop := True\<rparr>
                    else s\<lparr>stop := True\<rparr>) of
              (r, s2, ev) \<Rightarrow>
                (r, (if flagAfterClear env then s2\<lparr>stop := True\<rparr> else s2)
                      \<lparr>passThrough := passThrough s \<or> passThrough s2\<rparr>,
                 if closeAfterInstall env \<and> r = Returned None
                 then StopSend # ev @ [ConnClose (origin s2)]
                 else StopSend # ConnClose (origin s) # ev))"
    by blast
  show ?thesis
  proof (cases "passThrough s")
    case True
    with sw d [of "s\<lparr>sem := g, passThrough := False, stop := True\<rparr>"] show ?thesis by simp
  next
    case False
    with sw d [of "s\<lparr>stop := True\<rparr>"] show ?thesis by simp
  qed
qed

text \<open>
  Claim C1 does not hold of the code. When the switch has sent the stop and dialled, and
  then the write of the PROXY header fails (line 243) or the read of the greeting fails
  (line 249), \<open>switchOrigin\<close> returns the error with the old origin still installed, but
  the stop flag, which the pump set when it took the stop, is still set, and the new
  socket is not closed; the old socket has been closed by the pump's stop case. (The
  returns of lines 233 and 258 clear the flag, and line 255 closes the new socket.)
\<close>

theorem switchOrigin_early_return_keeps_stop:
  assumes "\<not> passThrough s \<or> fst (suspend (semAt env) s) = None" and "pumpSelecting env"
    and "netDial env oa = (n, None)" and "origin s \<noteq> TCPConn n"
    and "(if proxyProtocol s then sendProxyHeader env (TCPConn n) ca oa else (Returned None, []))
           = (h, hev)"
    and "h = Returned (Some e) \<or> (h = Returned None \<and> welcomeRead env = (str, Some e))"
  shows "\<exists>s' ev. switchOrigin env ca oa tls prev s = (Returned (Some e), s', ev) \<and>
           stop s' \<and> ConnClose (TCPConn n) \<notin> set ev \<and> ConnClose (origin s) \<in> set ev \<and>
           origin s' = origin s"
proof -
  have hev: "hev = [] \<or> (\<exists>hdr. hev = [HeaderWriteTo hdr (TCPConn n)])"
    using assms(5) sendProxyHeader_events [of env "TCPConn n" ca oa h hev]
    by (auto split: if_splits)
  have d: "switchOrigin_dial env ca oa tls prev s1 =
      (Returned (Some e), s1,
       Dial oa # hev @ (if h = Returned None then [ReadString (NewReader (TCPConn n))] else []))"
    if "proxyProtocol s1 = proxyProtocol s" for s1
    using assms(3,5,6) that by (auto simp: switchOrigin_dial_def Let_def)
  from switchOrigin_reach_dial [OF assms(1,2), of ca oa tls prev] obtain g where
    sw: "switchOrigin env ca oa tls prev s =
           (case switchOrigin_dial env ca oa tls prev
                   (if passThrough s then s\<lparr>sem := g, passThrough := False, stop := True\<rparr>
                    else s\<lparr>stop := True\<rparr>) of
              (r, s2, ev) \<Rightarrow>
                (r, (if flagAfterClear env then s2\<lparr>stop := True\<rparr> else s2)
                      \<lparr>passThrough := passThrough s \<or> passThrough s2\<rparr>,
                 if closeAfterInstall env \<and> r = Returned None
                 then StopSend # ev @ [ConnClose (origin s2)]
                 else StopSend # ConnClose (origin s) # ev))"
    by blast
  show ?thesis
  proof (cases "passThrough s")
    case True
    with sw d [of "s\<lparr>sem := g, passThrough := False, stop := True\<rparr>"] hev assms(4)
    show ?thesis by auto
  next
    case False
    with sw d [of "s\<lparr>stop := True\<rparr>"] hev assms(4)
    show ?thesis by auto
  qed
qed

theorem switchOrigin_early_return_keeps_stop_witness:
  "\<exists>s' ev. switchOrigin (exampleEnv\<lparr>welcomeRead := ([], Some EOF)\<rparr>) ''192.0.2.7:50000''
              ''ftp.example:21'' exampleTLS examplePrevious exampleSession =
             (Returned (Some EOF), s', ev) \<and>
           stop s' \<and> ConnClose (TCPConn 2) \<notin> set ev \<and> ConnClose (TCPConn 1) \<in> set ev \<and>
           origin s' = TCPConn 1"
proof -
  let ?env = "exampleEnv\<lparr>welcomeRead := ([], Some EOF)\<rparr>"
  have su: "\<not> passThrough exampleSession \<or> fst (suspend (semAt ?env) exampleSession) = None"
    by code_simp
  have ps: "pumpSelecting ?env" by (simp add: exampleEnv_def)
  have d: "netDial ?env ''ftp.example:21'' = (2, None)" by (simp add: exampleEnv_def)
  have o: "origin exampleSession \<noteq> TCPConn 2" by (simp add: exampleSession_def)
  have h: "(if proxyProtocol exampleSession
            then sendProxyHeader ?env (TCPConn 2) ''192.0.2.7:50000'' ''ftp.example:21''
            else (Returned None, [])) =
           (Returned None,
            snd (sendProxyHeader ?env (TCPConn 2) ''192.0.2.7:50000'' ''ftp.example:21''))"
    by code_simp
  have w: "Returned None = Returned (Some EOF) \<or>
           (Returned None = (Returned None :: error option outcome) \<and> welcomeRead ?env = ([], Some EOF))"
    by simp
  from switchOrigin_early_return_keeps_stop [OF su ps d o h w, of exampleTLS examplePrevious]
  show ?thesis by (simp add: exampleSession_def)
qed

subsection \<open>The invariants of the pump\<close>

lemma written_append: "written (ev @ ev') = written ev @ written ev'"
  by (induction ev rule: written.induct) auto

lemma passedOn_append: "passedOn (ev @ ev') = passedOn ev @ passedOn ev'"
  by (induction ev rule: passedOn.induct) auto

text \<open>A slice that is read, without error or at EOF, while pass-through is set is
  passed on, whatever the gate.\<close>

lemma passThrough_read_passedOn:
  "Read r data err True g \<in> set ev \<Longrightarrow> err = None \<or> err = Some EOF \<Longrightarrow> data \<in> set (passedOn ev)"
  by (induction ev rule: passedOn.induct) auto

lemma pumpInv_start: "pumpInv (startPump s from to)"
  by (simp add: pumpInv_def startPump_def queued_def)

lemma step_FromRead_inv:
  assumes "pumpInv p" and "step (FromRead data err) p = Some p'"
  shows "pumpInv p'"
  using assms
  by (auto simp: pumpInv_def queued_def forward_def Let_def written_append passedOn_append
        semLocked_def
      split: if_splits option.splits)

lemma step_ToWrite_inv:
  assumes "pumpInv p" and "step (ToWrite werr ferr) p = Some p'"
  shows "pumpInv p'"
  using assms
  by (auto simp: pumpInv_def queued_def leaveLoop_def Let_def written_append passedOn_append
      split: if_splits option.splits list.splits)

lemma step_inv:
  assumes "pumpInv p" and "step a p = Some p'"
  shows "pumpInv p'"
proof (cases a)
  case (FromRead data err)
  with assms show ?thesis using step_FromRead_inv by blast
next
  case (ToWrite werr ferr)
  with assms show ?thesis using step_ToWrite_inv by blast
qed (use assms in \<open>auto simp: pumpInv_def queued_def leaveLoop_def pumpStop_def stopCase_def
      safeSetChanel_def written_append passedOn_append split: if_splits readerPC.splits\<close>)

lemma run_inv: "pumpInv p \<Longrightarrow> run sched p = Some p' \<Longrightarrow> pumpInv p'"
  by (induction sched arbitrary: p) (auto split: option.splits dest: step_inv)

lemma run_append:
  "run (as @ bs) p = (case run as p of None \<Rightarrow> None | Some p' \<Rightarrow> run bs p')"
  by (induction as arbitrary: p) (auto split: option.splits)

text \<open>Once the writer loop has left its loop, nothing more is written.\<close>

lemma step_left_written:
  assumes "mpc p = MWaitDone \<or> mpc p = MReturned" and "step a p = Some p'"
  shows "(mpc p' = MWaitDone \<or> mpc p' = MReturned) \<and> written (events p') = written (events p)"
  using assms
  by (cases a)
     (auto simp: forward_def Let_def written_append pumpStop_def leaveLoop_def safeSetChanel_def
        split: if_splits option.splits list.splits readerPC.splits)

lemma run_left_written:
  "mpc p = MWaitDone \<or> mpc p = MReturned \<Longrightarrow> run sched p = Some p' \<Longrightarrow>
     written (events p') = written (events p)"
proof (induction sched arbitrary: p)
  case Nil
  then show ?case by simp
next
  case (Cons a sched)
  from Cons.prems(2) obtain q where q: "step a p = Some q" "run sched q = Some p'"
    by (auto split: option.splits)
  from step_left_written [OF Cons.prems(1) q(1)] Cons.IH [OF _ q(2)] show ?case by simp
qed

lemma step_loopOpen:
  assumes "loopOpen p" and "step a p = Some p'"
  shows "loopOpen p'"
  using assms
  by (cases a)
     (auto simp: loopOpen_def forward_def Let_def pumpStop_def leaveLoop_def safeSetChanel_def
        split: if_splits option.splits list.splits readerPC.splits)

lemma run_loopOpen: "loopOpen p \<Longrightarrow> run sched p = Some p' \<Longrightarrow> loopOpen p'"
  by (induction sched arbitrary: p) (auto split: option.splits dest: step_loopOpen)

lemma loopOpen_start: "loopOpen (startPump s from to)"
  by (simp add: loopOpen_def startPump_def)

subsection \<open>C3: what is read in pass-through is written once, in order\<close>

text \<open>
  Claim C3, as amended. In every state that the pump reaches, under every schedule, and
  unless the reader has panicked: the slices given to \<^verbatim>\<open>to.Write\<close>, followed by the
  slice that is still queued on \<^verbatim>\<open>read\<close> (at most one), are the slices that the reader
  passed on, in the order of the reads; these are the slices read, without error or at
  EOF, while pass-through was set or the gate was held, so every slice read while
  pass-through is true and the gate is free is among them. No slice is queued when the
  reader is about to read again or to send its stop, or is owed the acknowledgement:
  every slice passed on has then been written exactly once.
\<close>

theorem pump_forwards_in_order:
  assumes "run sched (startPump s from to) = Some p" and "rpc p \<noteq> RPanic"
  shows "written (events p) @ queued p = passedOn (events p) \<and> length (queued p) \<le> 1 \<and>
         (rpc p = RRead \<or> rpc p = RSendStop \<or> mpc p = MSendAck \<longrightarrow>
            written (events p) = passedOn (events p))"
proof -
  from run_inv [OF pumpInv_start assms(1)] have i: "pumpInv p" .
  with assms(2) show ?thesis by (auto simp: pumpInv_def queued_def)
qed

text \<open>The three slices of a login, each acknowledged.\<close>

theorem pump_forwards_in_order_witness:
  "\<exists>p. run [FromRead ''220 ready'' None, ToWrite None None, SendAck,
             FromRead ''331 password'' None, ToWrite None None, SendAck]
            (startPump exampleSession (originReader exampleSession) (clientWriter exampleSession))
          = Some p \<and>
        written (events p) = [''220 ready'', ''331 password''] \<and> queued p = []"
proof -
  let ?sched = "[FromRead ''220 ready'' None, ToWrite None None, SendAck,
             FromRead ''331 password'' None, ToWrite None None, SendAck]"
  let ?p0 = "startPump exampleSession (originReader exampleSession) (clientWriter exampleSession)"
  have "\<exists>p. run ?sched ?p0 = Some p \<and> rpc p = RRead \<and>
          passedOn (events p) = [''220 ready'', ''331 password'']"
    by (simp add: startPump_def exampleSession_def BUFFER_SIZE_def forward_def semLocked_def
          Let_def)
  then obtain p where p: "run ?sched ?p0 = Some p" "rpc p = RRead"
    "passedOn (events p) = [''220 ready'', ''331 password'']" by blast
  from pump_forwards_in_order [OF p(1)] p(2,3)
  have "written (events p) = [''220 ready'', ''331 password'']" "queued p = []"
    by auto
  with p(1) show ?thesis by blast
qed

text \<open>
  The claim as stated fails for a slice that is still queued when the writer loop takes a
  stop of \<open>switchOrigin\<close>: read in pass-through with the gate free, it is never written,
  whatever follows.
\<close>

theorem pump_forwards_counterexample:
  "\<exists>p. run [FromRead ''226 done'' None, OtherPassThrough False, StopSwitcher]
            (startPump exampleSession (originReader exampleSession) (clientWriter exampleSession))
          = Some p \<and>
        events p = [Read (NewReader (TCPConn 1)) ''226 done'' None True 0,
                    SetReadDeadline (TCPConn 1), ConnClose (TCPConn 1)] \<and>
        queued p = [''226 done''] \<and>
        \<not> (\<exists>sched p'. run sched p = Some p' \<and> written (events p') \<noteq> [])"
proof -
  let ?p0 = "startPump exampleSession (originReader exampleSession) (clientWriter exampleSession)"
  have "\<exists>p. run [FromRead ''226 done'' None, OtherPassThrough False, StopSwitcher] ?p0 = Some p \<and>
        events p = [Read (NewReader (TCPConn 1)) ''226 done'' None True 0,
                    SetReadDeadline (TCPConn 1), ConnClose (TCPConn 1)] \<and>
        queued p = [''226 done''] \<and> mpc p = MWaitDone"
    by (simp add: startPump_def exampleSession_def BUFFER_SIZE_def forward_def semLocked_def
          Let_def pumpStop_def stopCase_def leaveLoop_def queued_def)
  then obtain p where p: "run [FromRead ''226 done'' None, OtherPassThrough False, StopSwitcher] ?p0 = Some p"
    "events p = [Read (NewReader (TCPConn 1)) ''226 done'' None True 0,
                    SetReadDeadline (TCPConn 1), ConnClose (TCPConn 1)]"
    "queued p = [''226 done'']" "mpc p = MWaitDone" by blast
  have "written (events p') = []" if "run sched p = Some p'" for sched p'
    using run_left_written [OF _ that] p(2,4) by simp
  with p show ?thesis by blast
qed

subsection \<open>C2: what is read while the gate is held\<close>

text \<open>The read of a slice in a state in which the reader may read and \<^verbatim>\<open>read\<close> is
  open and empty: the state after the step, by what lines 288 and 305 find.\<close>

lemma step_FromRead_passed:
  assumes "rpc p = RRead" "length data \<le> BUFFER_SIZE" "err = None \<or> err = Some EOF"
    and "passThrough (srv p) \<or> semLocked (srv p)" "\<not> readClosed p" "readCh p = []"
  shows "\<exists>p'. step (FromRead data err) p = Some p' \<and> readCh p' = [length data] \<and>
           take (length data) (buff p') = data \<and>
           srv p' = (if semLocked (srv p) then semUnlock (srv p) else srv p) \<and>
           mpc p' = mpc p \<and>
           written (events p') = written (events p) \<and>
           passedOn (events p') = passedOn (events p) @ [data] \<and>
           rpc p' = (if err = None then RWaitSend else RWaitSendEOF)"
  using assms
  by (auto simp: Let_def forward_def written_append passedOn_append semLocked_def)

lemma step_FromRead_dropped:
  assumes "rpc p = RRead" "length data \<le> BUFFER_SIZE" "err = None \<or> err = Some EOF"
    and "\<not> semLocked (srv p)" "\<not> passThrough (srv p)" "readCh p = []"
  shows "\<exists>p'. step (FromRead data err) p = Some p' \<and> readCh p' = [] \<and> srv p' = srv p \<and>
           mpc p' = mpc p \<and>
           written (events p') = written (events p) \<and>
           passedOn (events p') = passedOn (events p) \<and>
           rpc p' = (if err = None then RWaitSend else RWaitSendEOF)"
  using assms
  by (auto simp: Let_def forward_def written_append passedOn_append semLocked_def)

text \<open>The writer loop at its \<^verbatim>\<open>select\<close> takes the queued slice and gives it to
  \<^verbatim>\<open>to.Write\<close>, whatever the write and the flush then return.\<close>

lemma step_ToWrite_writes:
  assumes "mpc p = MSelect" "readCh p = [n]"
  shows "\<exists>p'. step (ToWrite werr ferr) p = Some p' \<and>
           written (events p') = written (events p) @ [take n (buff p)]"
  using assms
  by (cases werr; cases ferr) (simp_all add: Let_def leaveLoop_def written_append)

text \<open>The events of a run only grow, and so do the slices written.\<close>

lemma step_written_grows:
  assumes "step a p = Some p'"
  shows "\<exists>later. written (events p') = written (events p) @ later"
  using assms
  by (cases a)
     (auto simp: forward_def Let_def written_append pumpStop_def leaveLoop_def safeSetChanel_def
        stopCase_def
        split: if_splits option.splits list.splits readerPC.splits)

lemma run_written_grows:
  "run sched p = Some p' \<Longrightarrow> \<exists>later. written (events p') = written (events p) @ later"
proof (induction sched arbitrary: p)
  case Nil
  then show ?case by simp
next
  case (Cons a sched)
  from Cons.prems obtain q where q: "step a p = Some q" "run sched q = Some p'"
    by (auto split: option.splits)
  from step_written_grows [OF q(1)] Cons.IH [OF q(2)] show ?case by auto
qed

text \<open>
  A slice that is queued while the reader waits for the acknowledgement: a step of the
  pump either leaves it queued, nothing being written, the writer loop at its
  \<^verbatim>\<open>select\<close> or gone through the stop case; or it is the step that writes the slice.
\<close>

lemma step_queued:
  assumes "step a p = Some q"
    and "readCh p = [n]" "take n (buff p) = data"
    and "rpc p = RWaitSend \<or> rpc p = RWaitSendEOF"
    and "mpc p = MSelect \<or> (mpc p = MWaitDone \<and> errClosed p)"
  shows "(readCh q = [n] \<and> take n (buff q) = data \<and> written (events q) = written (events p) \<and>
          (rpc q = RWaitSend \<or> rpc q = RWaitSendEOF) \<and>
          (mpc q = MSelect \<or> (mpc q = MWaitDone \<and> errClosed q))) \<or>
         written (events q) = written (events p) @ [data]"
proof (cases a)
  case (ToWrite werr ferr)
  with assms(1,5) have m: "mpc p = MSelect" by (auto split: if_splits)
  from step_ToWrite_writes [OF m assms(2), of werr ferr] assms(1,3) ToWrite show ?thesis
    by auto
next
  case StopSwitcher
  with assms show ?thesis
    by (auto simp: pumpStop_def leaveLoop_def stopCase_def written_append split: if_splits)
qed (use assms in \<open>auto split: if_splits readerPC.splits\<close>)

lemma run_queued:
  assumes "run sched p = Some q"
    and "readCh p = [n]" "take n (buff p) = data"
    and "rpc p = RWaitSend \<or> rpc p = RWaitSendEOF"
    and "mpc p = MSelect \<or> (mpc p = MWaitDone \<and> errClosed p)"
  shows "(readCh q = [n] \<and> take n (buff q) = data \<and> written (events q) = written (events p) \<and>
          (mpc q = MSelect \<or> (mpc q = MWaitDone \<and> errClosed q))) \<or>
         (\<exists>later. written (events q) = written (events p) @ data # later)"
  using assms
proof (induction sched arbitrary: p)
  case Nil
  then show ?case by simp
next
  case (Cons a sched)
  from Cons.prems(1) obtain p' where p': "step a p = Some p'" "run sched p' = Some q"
    by (auto split: option.splits)
  from step_queued [OF p'(1) Cons.prems(2-5)] consider
      (still) "readCh p' = [n] \<and> take n (buff p') = data \<and>
               written (events p') = written (events p) \<and>
               (rpc p' = RWaitSend \<or> rpc p' = RWaitSendEOF) \<and>
               (mpc p' = MSelect \<or> (mpc p' = MWaitDone \<and> errClosed p'))"
    | (wrote) "written (events p') = written (events p) @ [data]"
    by blast
  then show ?case
  proof cases
    case still
    then have k: "readCh p' = [n]" "take n (buff p') = data"
      "rpc p' = RWaitSend \<or> rpc p' = RWaitSendEOF"
      "mpc p' = MSelect \<or> (mpc p' = MWaitDone \<and> errClosed p')"
      and w: "written (events p') = written (events p)"
      by simp_all
    from Cons.IH [OF p'(2) k] w show ?thesis by simp
  next
    case wrote
    from run_written_grows [OF p'(2)] wrote show ?thesis by auto
  qed
qed

text \<open>
  Claim C2, as amended. In a state that the pump reaches, with the reader about to read
  and the writer loop at its \<^verbatim>\<open>select\<close>, let a read return the slice \<open>data\<close>, without
  error or at EOF. The reader queues the slice on \<^verbatim>\<open>read\<close> exactly when pass-through is
  set or the gate is held (so it discards it exactly when pass-through is false and the
  gate is free), and releases the gate by one exactly when the gate is held; nothing is
  written by the read itself, and the reader then waits for the acknowledgement. Of a
  slice that is queued, and so of every slice read while the gate is held, whatever the
  schedule does next, one of these holds:
  \<^item> the slice has been given to \<^verbatim>\<open>to.Write\<close>, as the next slice after those written
    before the read;
  \<^item> the slice is still queued, nothing has been written since the read, and the writer
    loop is at its \<^verbatim>\<open>select\<close>, where it can take the slice and give it to
    \<^verbatim>\<open>to.Write\<close>;
  \<^item> the slice is still queued, nothing has been written since the read, and the writer
    loop has left its loop through the stop case (\<^verbatim>\<open>errchan\<close> is closed): the pump
    then writes nothing more, under any schedule.
\<close>

theorem gate_held_slice_is_forwarded:
  assumes "run sched (startPump s from to) = Some p"
    and "rpc p = RRead" and "mpc p = MSelect"
    and "length data \<le> BUFFER_SIZE" and "err = None \<or> err = Some EOF"
  shows
    "\<exists>p1. step (FromRead data err) p = Some p1 \<and>
       queued p1 = (if passThrough (srv p) \<or> semLocked (srv p) then [data] else []) \<and>
       sem (srv p1) = (if semLocked (srv p) then sem (srv p) - 1 else sem (srv p)) \<and>
       passThrough (srv p1) = passThrough (srv p) \<and>
       written (events p1) = written (events p) \<and>
       mpc p1 = MSelect \<and> (rpc p1 = RWaitSend \<or> rpc p1 = RWaitSendEOF) \<and>
       (passThrough (srv p) \<or> semLocked (srv p) \<longrightarrow>
          (\<forall>sched' p2. run sched' p1 = Some p2 \<longrightarrow>
             (\<exists>later. written (events p2) = written (events p) @ data # later) \<or>
             (queued p2 = [data] \<and> written (events p2) = written (events p) \<and>
              (mpc p2 = MSelect \<and>
                 (\<forall>werr ferr. \<exists>p3. step (ToWrite werr ferr) p2 = Some p3 \<and>
                     written (events p3) = written (events p) @ [data]) \<or>
               mpc p2 = MWaitDone \<and> errClosed p2 \<and>
                 (\<forall>sched'' p3. run sched'' p2 = Some p3 \<longrightarrow>
                     written (events p3) = written (events p))))))"
proof -
  from run_inv [OF pumpInv_start assms(1)] assms(2) have q: "readCh p = []"
    by (auto simp: pumpInv_def)
  from run_loopOpen [OF loopOpen_start assms(1)] assms(3) have o: "\<not> readClosed p"
    by (simp add: loopOpen_def)
  show ?thesis
  proof (cases "passThrough (srv p) \<or> semLocked (srv p)")
    case False
    then have d1: "\<not> semLocked (srv p)" and d2: "\<not> passThrough (srv p)" by simp_all
    from step_FromRead_dropped [OF assms(2,4,5) d1 d2 q] obtain p1 where
      p1: "step (FromRead data err) p = Some p1" "readCh p1 = []" "srv p1 = srv p"
        "mpc p1 = mpc p" "written (events p1) = written (events p)"
        "rpc p1 = (if err = None then RWaitSend else RWaitSendEOF)"
      by blast
    have "queued p1 = []" using p1(2) by (simp add: queued_def)
    with p1 False assms(3) show ?thesis by (intro exI [of _ p1]) auto
  next
    case True
    from step_FromRead_passed [OF assms(2,4,5) True o q] obtain p1 where
      p1: "step (FromRead data err) p = Some p1" "readCh p1 = [length data]"
        "take (length data) (buff p1) = data"
        "srv p1 = (if semLocked (srv p) then semUnlock (srv p) else srv p)"
        "mpc p1 = mpc p" "written (events p1) = written (events p)"
        "rpc p1 = (if err = None then RWaitSend else RWaitSendEOF)"
      by blast
    have r1: "rpc p1 = RWaitSend \<or> rpc p1 = RWaitSendEOF" using p1(7) by simp
    have m1: "mpc p1 = MSelect \<or> (mpc p1 = MWaitDone \<and> errClosed p1)"
      using p1(5) assms(3) by simp
    have qd: "queued p1 = [data]" using p1(2,3) by (simp add: queued_def)
    have sm: "sem (srv p1) = (if semLocked (srv p) then sem (srv p) - 1 else sem (srv p))"
      "passThrough (srv p1) = passThrough (srv p)"
      using p1(4) by (simp_all add: semUnlock_def)
    have after: "(\<exists>later. written (events p2) = written (events p) @ data # later) \<or>
             (queued p2 = [data] \<and> written (events p2) = written (events p) \<and>
              (mpc p2 = MSelect \<and>
                 (\<forall>werr ferr. \<exists>p3. step (ToWrite werr ferr) p2 = Some p3 \<and>
                     written (events p3) = written (events p) @ [data]) \<or>
               mpc p2 = MWaitDone \<and> errClosed p2 \<and>
                 (\<forall>sched'' p3. run sched'' p2 = Some p3 \<longrightarrow>
                     written (events p3) = written (events p))))"
      if r: "run sched' p1 = Some p2" for sched' p2
    proof -
      from run_queued [OF r p1(2,3) r1 m1] consider
          (wrote) later where "written (events p2) = written (events p1) @ data # later"
        | (select) "readCh p2 = [length data]" "take (length data) (buff p2) = data"
            "written (events p2) = written (events p1)" "mpc p2 = MSelect"
        | (left) "readCh p2 = [length data]" "take (length data) (buff p2) = data"
            "written (events p2) = written (events p1)" "mpc p2 = MWaitDone" "errClosed p2"
        by blast
      then show ?thesis
      proof cases
        case wrote
        then show ?thesis using p1(6) by simp
      next
        case select
        note k = select(1-3) and m = select(4)
        have "\<exists>p3. step (ToWrite werr ferr) p2 = Some p3 \<and>
                 written (events p3) = written (events p) @ [data]" for werr ferr
          using step_ToWrite_writes [OF m k(1), of werr ferr] k(2,3) p1(6) by simp
        moreover have "queued p2 = [data]" using k(1,2) by (simp add: queued_def)
        ultimately show ?thesis using k(3) p1(6) m by simp
      next
        case left
        note k = left(1-3) and m = left(4) and e = left(5)
        have "written (events p3) = written (events p)" if "run sched'' p2 = Some p3"
          for sched'' p3
          using run_left_written [OF _ that] m k(3) p1(6) by simp
        moreover have "queued p2 = [data]" using k(1,2) by (simp add: queued_def)
        ultimately show ?thesis using k(3) p1(6) m e by simp
      qed
    qed
    show ?thesis
      using p1(1) qd sm p1(6) p1(5) assms(3) r1 True after
      by (intro exI [of _ p1]) simp
  qed
qed

text \<open>
  A session that is suspended while a command waits for its response: the response is
  queued and the gate released, and the writer loop gives the response to the client
  writer; when the writer loop takes a stop of \<open>switchOrigin\<close> instead, the response stays
  queued and unwritten.
\<close>

theorem gate_held_slice_is_forwarded_witness:
  "\<exists>p1. step (FromRead ''331 password'' None)
           (startPump (exampleSession\<lparr>passThrough := False, sem := 1\<rparr>)
              (NewReader (TCPConn 1)) (NewWriter (TCPConn 0))) = Some p1 \<and>
        queued p1 = [''331 password''] \<and> sem (srv p1) = 0 \<and> \<not> passThrough (srv p1) \<and>
        (\<exists>p3. step (ToWrite None None) p1 = Some p3 \<and> written (events p3) = [''331 password'']) \<and>
        (\<exists>p2. run [StopSwitcher] p1 = Some p2 \<and> queued p2 = [''331 password''] \<and>
              written (events p2) = [] \<and> mpc p2 = MWaitDone)"
proof -
  let ?s = "exampleSession\<lparr>passThrough := False, sem := 1\<rparr>"
  let ?p = "startPump ?s (NewReader (TCPConn 1)) (NewWriter (TCPConn 0))"
  let ?d = "''331 password''"
  have r: "run [] ?p = Some ?p" by simp
  have a: "rpc ?p = RRead" "mpc ?p = MSelect" by (simp_all add: startPump_def)
  have l: "length ?d \<le> BUFFER_SIZE" by (simp add: BUFFER_SIZE_def)
  have e: "(None :: error option) = None \<or> (None :: error option) = Some EOF" by simp
  have g: "semLocked (srv ?p)" "written (events ?p) = []" "sem (srv ?p) = 1"
    "\<not> passThrough (srv ?p)"
    by (simp_all add: startPump_def semLocked_def exampleSession_def)
  from gate_held_slice_is_forwarded [OF r a l e] obtain p1 where
    st: "step (FromRead ?d None) ?p = Some p1"
    and qd: "queued p1 = (if passThrough (srv ?p) \<or> semLocked (srv ?p) then [?d] else [])"
    and sm: "sem (srv p1) = (if semLocked (srv ?p) then sem (srv ?p) - 1 else sem (srv ?p))"
    and pt: "passThrough (srv p1) = passThrough (srv ?p)"
    and w1: "written (events p1) = written (events ?p)"
    and m1: "mpc p1 = MSelect"
    and after: "passThrough (srv ?p) \<or> semLocked (srv ?p) \<longrightarrow>
          (\<forall>sched' p2. run sched' p1 = Some p2 \<longrightarrow>
             (\<exists>later. written (events p2) = written (events ?p) @ ?d # later) \<or>
             (queued p2 = [?d] \<and> written (events p2) = written (events ?p) \<and>
              (mpc p2 = MSelect \<and>
                 (\<forall>werr ferr. \<exists>p3. step (ToWrite werr ferr) p2 = Some p3 \<and>
                     written (events p3) = written (events ?p) @ [?d]) \<or>
               mpc p2 = MWaitDone \<and> errClosed p2 \<and>
                 (\<forall>sched'' p3. run sched'' p2 = Some p3 \<longrightarrow>
                     written (events p3) = written (events ?p)))))"
    by (elim exE conjE) (erule that)
  have r1: "run [] p1 = Some p1" by simp
  from after g(1) r1 have
    "(\<exists>later. written (events p1) = written (events ?p) @ ?d # later) \<or>
             (queued p1 = [?d] \<and> written (events p1) = written (events ?p) \<and>
              (mpc p1 = MSelect \<and>
                 (\<forall>werr ferr. \<exists>p3. step (ToWrite werr ferr) p1 = Some p3 \<and>
                     written (events p3) = written (events ?p) @ [?d]) \<or>
               mpc p1 = MWaitDone \<and> errClosed p1 \<and>
                 (\<forall>sched'' p3. run sched'' p1 = Some p3 \<longrightarrow>
                     written (events p3) = written (events ?p))))"
    by blast
  with w1 g(2) m1 have "\<forall>werr ferr. \<exists>p3. step (ToWrite werr ferr) p1 = Some p3 \<and>
                     written (events p3) = written (events ?p) @ [?d]"
    by auto
  then have wr: "\<exists>p3. step (ToWrite None None) p1 = Some p3 \<and> written (events p3) = [?d]"
    using g(2) by simp
  have r2: "run [StopSwitcher] p1 = Some (pumpStop p1)" using m1 by simp
  have w2: "written (events (pumpStop p1)) = []" "mpc (pumpStop p1) = MWaitDone"
    using w1 g(2) by (simp_all add: pumpStop_def leaveLoop_def stopCase_def written_append)
  from after g(1) r2 have
    "(\<exists>later. written (events (pumpStop p1)) = written (events ?p) @ ?d # later) \<or>
     (queued (pumpStop p1) = [?d] \<and> written (events (pumpStop p1)) = written (events ?p) \<and>
      (mpc (pumpStop p1) = MSelect \<and>
         (\<forall>werr ferr. \<exists>p3. step (ToWrite werr ferr) (pumpStop p1) = Some p3 \<and>
             written (events p3) = written (events ?p) @ [?d]) \<or>
       mpc (pumpStop p1) = MWaitDone \<and> errClosed (pumpStop p1) \<and>
         (\<forall>sched'' p3. run sched'' (pumpStop p1) = Some p3 \<longrightarrow>
             written (events p3) = written (events ?p))))"
    by blast
  with w2 g(2) have "queued (pumpStop p1) = [?d]" by auto
  with r2 w2 have stp: "\<exists>p2. run [StopSwitcher] p1 = Some p2 \<and> queued p2 = [?d] \<and>
              written (events p2) = [] \<and> mpc p2 = MWaitDone"
    by blast
  have "queued p1 = [?d]" "sem (srv p1) = 0" "\<not> passThrough (srv p1)"
    using qd sm pt g by simp_all
  with st wr stp show ?thesis by blast
qed

text \<open>
  The claim as stated fails: with pass-through false and the gate counter at 1, the slice
  that is read from the origin is written to the client and flushed.
\<close>

theorem gate_held_counterexample:
  "map_option events
     (run [FromRead ''331 password'' None, ToWrite None None]
        (startPump (exampleSession\<lparr>passThrough := False, sem := 1\<rparr>)
           (NewReader (TCPConn 1)) (NewWriter (TCPConn 0)))) =
     Some [Read (NewReader (TCPConn 1)) ''331 password'' None False 1,
           SetReadDeadline (TCPConn 1),
           Write (NewWriter (TCPConn 0)) ''331 password'',
           Flush (NewWriter (TCPConn 0))]"
  by (simp add: startPump_def exampleSession_def BUFFER_SIZE_def forward_def semLocked_def
        semUnlock_def Let_def)

subsection \<open>C5: EOF from the origin\<close>

lemma step_no_EOF_on_errchan:
  assumes "rpc p \<noteq> RSendErr EOF" and "step a p = Some p'"
  shows "rpc p' \<noteq> RSendErr EOF"
  using assms
  by (cases a)
     (auto simp: forward_def Let_def pumpStop_def leaveLoop_def safeSetChanel_def
        split: if_splits option.splits list.splits readerPC.splits)

lemma run_no_EOF_on_errchan:
  "rpc p \<noteq> RSendErr EOF \<Longrightarrow> run sched p = Some p' \<Longrightarrow> rpc p' \<noteq> RSendErr EOF"
  by (induction sched arbitrary: p) (auto split: option.splits dest: step_no_EOF_on_errchan)

text \<open>
  Claim C5. In a state that the pump reaches, with the reader about to read and the
  writer loop at its \<^verbatim>\<open>select\<close>, let the read return EOF with the slice \<open>data\<close>
  (possibly empty) while pass-through is set or the gate is held. Then the reader sends
  the slice on \<^verbatim>\<open>read\<close> and can do nothing before the acknowledgement: no stop, nothing
  on \<^verbatim>\<open>errchan\<close>. Once the writer loop has written and flushed the slice and given the
  acknowledgement, the reader sends its stop; the writer loop takes it, closes the origin
  socket, sets the stop flag and leaves its loop; after the rendezvous on \<^verbatim>\<open>done\<close> the
  pump has returned, its \<^verbatim>\<open>lastError\<close> being \<^verbatim>\<open>io.EOF\<close> (line 296). And under no
  schedule does the reader ever stand with \<^verbatim>\<open>io.EOF\<close> to send on \<^verbatim>\<open>errchan\<close>.
\<close>

theorem eof_ends_pump:
  assumes "run sched (startPump s from to) = Some p"
    and "rpc p = RRead" and "mpc p = MSelect" and "length data \<le> BUFFER_SIZE"
    and "passThrough (srv p) \<or> semLocked (srv p)"
  shows "(\<exists>p1 p2 p3 p4 p5.
            step (FromRead data (Some EOF)) p = Some p1 \<and> queued p1 = [data] \<and>
            step SendAck p1 = None \<and> step StopReader p1 = None \<and> step ErrChan p1 = None \<and>
            step (ToWrite None None) p1 = Some p2 \<and>
            events p2 = events p @
              [Read (fromR p) data (Some EOF) (passThrough (srv p)) (sem (srv p)),
               Write (toW p) data, Flush (toW p)] \<and>
            step StopReader p2 = None \<and>
            step SendAck p2 = Some p3 \<and>
            step StopReader p3 = Some p4 \<and> mpc p4 = MWaitDone \<and> stop (srv p4) \<and>
            events p4 = events p2 @ [ConnClose (origin (srv p))] \<and>
            step DoneChan p4 = Some p5 \<and> mpc p5 = MReturned \<and> rpc p5 = RExit \<and>
            lastError p5 = Some EOF \<and> events p5 = events p4 \<and>
            run (sched @ [FromRead data (Some EOF), ToWrite None None, SendAck, StopReader,
                          DoneChan]) (startPump s from to) = Some p5) \<and>
         (\<forall>sched' q. run sched' (startPump s from to) = Some q \<longrightarrow> rpc q \<noteq> RSendErr EOF)"
proof (intro conjI allI impI)
  from run_inv [OF pumpInv_start assms(1)] assms(2) have q: "readCh p = []"
    by (auto simp: pumpInv_def)
  from run_loopOpen [OF loopOpen_start assms(1)] assms(3) have o: "\<not> readClosed p"
    by (simp add: loopOpen_def)
  let ?s1 = "if semLocked (srv p) then semUnlock (srv p) else srv p"
  let ?e1 = "events p @ [Read (fromR p) data (Some EOF) (passThrough (srv p)) (sem (srv p))]"
  let ?p1 = "p\<lparr>buff := data @ drop (length data) (buff p), events := ?e1,
               readCh := [length data], srv := ?s1, rpc := RWaitSendEOF\<rparr>"
  let ?e2 = "?e1 @ [Write (toW p) data, Flush (toW p)]"
  let ?p2 = "?p1\<lparr>readCh := [], events := ?e2, mpc := MSendAck\<rparr>"
  let ?p3 = "?p2\<lparr>mpc := MSelect, lastError := Some EOF, rpc := RSendStop\<rparr>"
  let ?e4 = "?e2 @ [ConnClose (origin (srv p))]"
  let ?p4 = "?p3\<lparr>rpc := RSendDone, errClosed := True, srv := ?s1\<lparr>stop := True\<rparr>,
                events := ?e4, readClosed := True, mpc := MWaitDone\<rparr>"
  let ?p5 = "?p4\<lparr>rpc := RExit, mpc := MReturned\<rparr>"
  have o1: "origin ?s1 = origin (srv p)" by (simp add: semUnlock_def)
  have st1: "step (FromRead data (Some EOF)) p = Some ?p1"
    using assms(2,4,5) q o by (simp add: forward_def Let_def)
  have st1a: "queued ?p1 = [data]" by (simp add: queued_def)
  have st1b: "step SendAck ?p1 = None" "step StopReader ?p1 = None" "step ErrChan ?p1 = None"
    using assms(3) by simp_all
  have st2: "step (ToWrite None None) ?p1 = Some ?p2"
    using assms(3) by (simp add: Let_def)
  have st2b: "step StopReader ?p2 = None" by simp
  have st3: "step SendAck ?p2 = Some ?p3" by simp
  have st4: "step StopReader ?p3 = Some ?p4"
    by (simp add: pumpStop_def stopCase_def leaveLoop_def o1)
  have st5: "step DoneChan ?p4 = Some ?p5" by simp
  have r: "run (sched @ [FromRead data (Some EOF), ToWrite None None, SendAck, StopReader,
                          DoneChan]) (startPump s from to) = Some ?p5"
    unfolding run_append assms(1) using st1 st2 st3 st4 st5 by simp
  show "\<exists>p1 p2 p3 p4 p5.
            step (FromRead data (Some EOF)) p = Some p1 \<and> queued p1 = [data] \<and>
            step SendAck p1 = None \<and> step StopReader p1 = None \<and> step ErrChan p1 = None \<and>
            step (ToWrite None None) p1 = Some p2 \<and>
            events p2 = events p @
              [Read (fromR p) data (Some EOF) (passThrough (srv p)) (sem (srv p)),
               Write (toW p) data, Flush (toW p)] \<and>
            step StopReader p2 = None \<and>
            step SendAck p2 = Some p3 \<and>
            step StopReader p3 = Some p4 \<and> mpc p4 = MWaitDone \<and> stop (srv p4) \<and>
            events p4 = events p2 @ [ConnClose (origin (srv p))] \<and>
            step DoneChan p4 = Some p5 \<and> mpc p5 = MReturned \<and> rpc p5 = RExit \<and>
            lastError p5 = Some EOF \<and> events p5 = events p4 \<and>
            run (sched @ [FromRead data (Some EOF), ToWrite None None, SendAck, StopReader,
                          DoneChan]) (startPump s from to) = Some p5"
    apply (rule exI [of _ ?p1], rule exI [of _ ?p2], rule exI [of _ ?p3], rule exI [of _ ?p4],
        rule exI [of _ ?p5])
    apply (intro conjI)
    apply (rule st1, rule st1a, rule st1b(1), rule st1b(2), rule st1b(3), rule st2)
    apply simp
    apply (rule st2b, rule st3, rule st4)
    apply simp
    apply simp
    apply simp
    apply (rule st5)
    apply simp
    apply simp
    apply simp
    apply simp
    apply (rule r)
    done
next
  fix sched' q
  assume "run sched' (startPump s from to) = Some q"
  then show "rpc q \<noteq> RSendErr EOF"
    by (intro run_no_EOF_on_errchan [of "startPump s from to" sched' q]) (simp_all add: startPump_def)
qed

text \<open>The origin says goodbye and closes: scenario 5.\<close>

theorem eof_ends_pump_witness:
  "\<exists>s' ev. start [FromRead (''221 Goodbye'' @ crlf) (Some EOF), ToWrite None None, SendAck,
                   StopReader, DoneChan]
             exampleSession (NewReader (TCPConn 1)) (NewWriter (TCPConn 0)) =
             Some (Some EOF, s', ev) \<and>
           written ev = [''221 Goodbye'' @ crlf] \<and> stop s'"
proof -
  let ?p = "startPump exampleSession (NewReader (TCPConn 1)) (NewWriter (TCPConn 0))"
  let ?d = "''221 Goodbye'' @ crlf"
  have r: "run [] ?p = Some ?p" by simp
  have a: "rpc ?p = RRead" "mpc ?p = MSelect" by (simp_all add: startPump_def)
  have l: "length ?d \<le> BUFFER_SIZE" by (simp add: BUFFER_SIZE_def crlf_def)
  have c: "passThrough (srv ?p) \<or> semLocked (srv ?p)"
    by (simp add: startPump_def exampleSession_def)
  have ns: "\<not> stop exampleSession" by (simp add: exampleSession_def)
  have e0: "events ?p = []" by (simp add: startPump_def)
  from eof_ends_pump [OF r a l c]
  have "\<exists>p1 p2 p3 p4 p5.
            step (FromRead ?d (Some EOF)) ?p = Some p1 \<and> queued p1 = [?d] \<and>
            step SendAck p1 = None \<and> step StopReader p1 = None \<and> step ErrChan p1 = None \<and>
            step (ToWrite None None) p1 = Some p2 \<and>
            events p2 = events ?p @
              [Read (fromR ?p) ?d (Some EOF) (passThrough (srv ?p)) (sem (srv ?p)),
               Write (toW ?p) ?d, Flush (toW ?p)] \<and>
            step StopReader p2 = None \<and>
            step SendAck p2 = Some p3 \<and>
            step StopReader p3 = Some p4 \<and> mpc p4 = MWaitDone \<and> stop (srv p4) \<and>
            events p4 = events p2 @ [ConnClose (origin (srv ?p))] \<and>
            step DoneChan p4 = Some p5 \<and> mpc p5 = MReturned \<and> rpc p5 = RExit \<and>
            lastError p5 = Some EOF \<and> events p5 = events p4 \<and>
            run ([] @ [FromRead ?d (Some EOF), ToWrite None None, SendAck, StopReader,
                          DoneChan]) (startPump exampleSession (NewReader (TCPConn 1))
                                        (NewWriter (TCPConn 0))) = Some p5"
    by (rule conjunct1)
  then obtain p1 p2 p3 p4 p5 where all:
           "step (FromRead ?d (Some EOF)) ?p = Some p1 \<and> queued p1 = [?d] \<and>
            step SendAck p1 = None \<and> step StopReader p1 = None \<and> step ErrChan p1 = None \<and>
            step (ToWrite None None) p1 = Some p2 \<and>
            events p2 = events ?p @
              [Read (fromR ?p) ?d (Some EOF) (passThrough (srv ?p)) (sem (srv ?p)),
               Write (toW ?p) ?d, Flush (toW ?p)] \<and>
            step StopReader p2 = None \<and>
            step SendAck p2 = Some p3 \<and>
            step StopReader p3 = Some p4 \<and> mpc p4 = MWaitDone \<and> stop (srv p4) \<and>
            events p4 = events p2 @ [ConnClose (origin (srv ?p))] \<and>
            step DoneChan p4 = Some p5 \<and> mpc p5 = MReturned \<and> rpc p5 = RExit \<and>
            lastError p5 = Some EOF \<and> events p5 = events p4 \<and>
            run ([] @ [FromRead ?d (Some EOF), ToWrite None None, SendAck, StopReader,
                          DoneChan]) (startPump exampleSession (NewReader (TCPConn 1))
                                        (NewWriter (TCPConn 0))) = Some p5"
    by (elim exE) (erule that)
  have p1: "events p2 = events ?p @
              [Read (fromR ?p) ?d (Some EOF) (passThrough (srv ?p)) (sem (srv ?p)),
               Write (toW ?p) ?d, Flush (toW ?p)]"
    using all by (elim conjE)
  have p2: "stop (srv p4)" using all by (elim conjE)
  have p3: "events p4 = events p2 @ [ConnClose (origin (srv ?p))]" using all by (elim conjE)
  have p4: "step DoneChan p4 = Some p5" using all by (elim conjE)
  have p5: "mpc p5 = MReturned" using all by (elim conjE)
  have p6: "lastError p5 = Some EOF" using all by (elim conjE)
  have p7: "events p5 = events p4" using all by (elim conjE)
  have p8: "run ([] @ [FromRead ?d (Some EOF), ToWrite None None, SendAck, StopReader,
                       DoneChan]) ?p = Some p5"
    using all by (elim conjE)
  note p = p1 p2 p3 p4 p5 p6 p7 p8
  from p(4) have "srv p5 = srv p4" by (auto split: if_splits)
  with p(2) have s5: "stop (srv p5)" by simp
  have w: "written (events p5) = [?d]" using p(1,3,7) e0 by (simp add: written_append)
  have "start [FromRead ?d (Some EOF), ToWrite None None, SendAck, StopReader, DoneChan]
          exampleSession (NewReader (TCPConn 1)) (NewWriter (TCPConn 0)) =
        Some (Some EOF, srv p5, events p5)"
    using p(8) p(5,6) ns by (simp add: start_def)
  with w s5 show ?thesis by blast
qed

subsection \<open>C10: the pump of a stopped session\<close>

text \<open>
  Claim C10. When the stop flag of the session is set, \<open>start\<close> returns \<^verbatim>\<open>nil\<close> under
  every schedule, with no event (nothing is read, written or closed) and with the session
  as it was. So does the pump that is started again, by \<open>responseProxy\<close>, on the session
  that a call of \<open>switchOrigin\<close> has left with the stop flag set.
\<close>

theorem start_with_stop_set:
  "(stop s \<longrightarrow> start sched s from to = Some (None, s, [])) \<and>
   (\<forall>env clientAddr originAddr tlsProtocol previous s0 r ev.
      switchOrigin env clientAddr originAddr tlsProtocol previous s0 = (r, s, ev) \<and> stop s \<longrightarrow>
      responseProxy sched s = Some (None, s, []))"
  by (simp add: start_def responseProxy_def)

text \<open>A session with the stop flag set; and the session that a switch leaves when the
  new origin closes before its greeting.\<close>

theorem start_with_stop_set_witness:
  "start [FromRead ''220 ready'' None, ToWrite None None] (exampleSession\<lparr>stop := True\<rparr>)
     (NewReader (TCPConn 1)) (NewWriter (TCPConn 0)) =
     Some (None, exampleSession\<lparr>stop := True\<rparr>, []) \<and>
   fst (switchOrigin (exampleEnv\<lparr>welcomeRead := ([], Some EOF)\<rparr>) ''192.0.2.7:50000''
          ''ftp.example:21'' exampleTLS examplePrevious exampleSession) = Returned (Some EOF) \<and>
   responseProxy [FromRead ''220 ready'' None, ToWrite None None]
     (fst (snd (switchOrigin (exampleEnv\<lparr>welcomeRead := ([], Some EOF)\<rparr>) ''192.0.2.7:50000''
                  ''ftp.example:21'' exampleTLS examplePrevious exampleSession))) =
     Some (None,
       fst (snd (switchOrigin (exampleEnv\<lparr>welcomeRead := ([], Some EOF)\<rparr>) ''192.0.2.7:50000''
                  ''ftp.example:21'' exampleTLS examplePrevious exampleSession)), [])"
proof -
  let ?sw = "switchOrigin (exampleEnv\<lparr>welcomeRead := ([], Some EOF)\<rparr>) ''192.0.2.7:50000''
                  ''ftp.example:21'' exampleTLS examplePrevious exampleSession"
  let ?sched = "[FromRead ''220 ready'' None, ToWrite None None]"
  have r: "fst ?sw = Returned (Some EOF)" by code_simp
  have st: "stop (fst (snd ?sw))" by code_simp
  have sw: "?sw = (fst ?sw, fst (snd ?sw), snd (snd ?sw))" by simp
  have s1: "stop (exampleSession\<lparr>stop := True\<rparr>)" by simp
  from start_with_stop_set [of "exampleSession\<lparr>stop := True\<rparr>" ?sched
      "NewReader (TCPConn 1)" "NewWriter (TCPConn 0)"] s1
  have a: "start ?sched (exampleSession\<lparr>stop := True\<rparr>) (NewReader (TCPConn 1))
      (NewWriter (TCPConn 0)) = Some (None, exampleSession\<lparr>stop := True\<rparr>, [])"
    by blast
  from start_with_stop_set [of "fst (snd ?sw)" ?sched] sw st
  have b: "responseProxy ?sched (fst (snd ?sw)) = Some (None, fst (snd ?sw), [])"
    by blast
  from a r b show ?thesis by blast
qed

end
